theory Spec2Isabelle
  imports Main "HOL-Library.Word" "HOL-Library.Sublist"
begin

section \<open>Strings\<close>

text \<open>
  Go strings are byte sequences; they are modelled as \<open>string\<close> (a list of 8-bit
  characters holding the UTF-8 bytes). \<open>strings.ToLower\<close> is modelled on the ASCII
  letters, where it maps \<open>A..Z\<close> to \<open>a..z\<close> and leaves every other byte alone. No result
  below depends on what \<open>ToLower\<close> does to a string, only on the string it returns.
\<close>

definition lower_char :: "char \<Rightarrow> char" where
  "lower_char c =
     (case map_of (zip ''ABCDEFGHIJKLMNOPQRSTUVWXYZ'' ''abcdefghijklmnopqrstuvwxyz'') c of
        Some d \<Rightarrow> d
      | None \<Rightarrow> c)"

definition ToLower :: "string \<Rightarrow> string" where
  "ToLower s = map lower_char s"

text \<open>\<open>strings.Contains(s, substr)\<close>: \<open>substr\<close> occurs at some position of \<open>s\<close>.\<close>

fun Contains :: "string \<Rightarrow> string \<Rightarrow> bool" where
  "Contains [] substr = (substr = [])"
| "Contains (c # cs) substr = (prefix substr (c # cs) \<or> Contains cs substr)"

text \<open>\<open>strings.HasSuffix(s, suffix)\<close>.\<close>

definition HasSuffix :: "string \<Rightarrow> string \<Rightarrow> bool" where
  "HasSuffix s suf = prefix (rev suf) (rev s)"

text \<open>\<open>strings.EqualFold(s, t)\<close>, on ASCII: equal up to the case of letters.\<close>

definition EqualFold :: "string \<Rightarrow> string \<Rightarrow> bool" where
  "EqualFold s t = (ToLower s = ToLower t)"

abbreviation (input) bsl :: char where
  "bsl \<equiv> CHR 0x5C"

section \<open>Processes and the classification filter\<close>

type_synonym int32 = "32 word"

text \<open>
  A \<open>*process.Process\<close> as one tick sees it: its \<open>Pid\<close> and the answers of the
  operating-system queries made on it during the tick. A failing query (\<open>err != nil\<close>)
  is \<open>None\<close>. \<open>ParentName\<close> is \<open>None\<close> when \<open>p.Parent()\<close> fails, \<open>Some None\<close> when the
  parent is found and its \<open>Name()\<close> fails. \<open>ProductName\<close>, \<open>ProcessLevel\<close> and
  \<open>HasVisibleWindow\<close> are the answers of \<open>executable.GetProductName\<close>,
  \<open>integrity.GetProcessLevel\<close> and \<open>window.HasVisibleWindow\<close>, packages that the
  filter imports.
\<close>

record Process =
  Pid :: int32
  Name :: "string option"
  Exe :: "string option"
  ParentName :: "string option option"
  ProductName :: "string option"
  ProcessLevel :: "32 word option"
  HasVisibleWindow :: bool

text \<open>
  Modelled from the spec: \<open>integrity.SystemRID\<close>, the "system" integrity tier, whose
  package is not among the sources; \<open>types.IntegritySystem\<close> gives the value.
\<close>

definition SystemRID :: "32 word" where
  "SystemRID = 0x4000"

text \<open>The product name of the host system's own components; the two registered-trademark
  signs are the UTF-8 bytes \<open>C2 AE\<close>.\<close>

definition windows_product :: string where
  "windows_product =
     ''Microsoft'' @ [CHR 0xC2, CHR 0xAE] @ '' Windows'' @ [CHR 0xC2, CHR 0xAE] @
     '' Operating System''"

definition system32_dir :: string where
  "system32_dir = bsl # ''windows'' @ bsl # ''system32'' @ [bsl]"

definition syswow64_dir :: string where
  "syswow64_dir = bsl # ''windows'' @ bsl # ''syswow64'' @ [bsl]"

text \<open>\<open>ShouldExclude\<close> of \<open>rules_windows.go\<close>. The monitor never passes a nil process.\<close>

definition ShouldExclude_windows :: "string \<Rightarrow> Process \<Rightarrow> bool" where
  "ShouldExclude_windows exePath proc =
     (let exePathLower = ToLower exePath in
      if Contains exePathLower ''procguard.exe'' then True
      else if HasSuffix exePathLower ''conhost.exe'' then True
      else if Contains exePathLower system32_dir \<or> Contains exePathLower syswow64_dir then True
      else if (case ProductName proc of
                 Some productName \<Rightarrow> Contains productName windows_product
               | None \<Rightarrow> False) then True
      else if (case ProcessLevel proc of
                 Some il \<Rightarrow> SystemRID \<le> il
               | None \<Rightarrow> False) then True
      else False)"

text \<open>\<open>ShouldTrack\<close> of \<open>rules_windows.go\<close>.\<close>

definition parent_is_explorer :: "Process \<Rightarrow> bool" where
  "parent_is_explorer proc =
     (case ParentName proc of
        Some (Some parentName) \<Rightarrow> EqualFold parentName ''explorer.exe''
      | _ \<Rightarrow> False)"

definition ShouldTrack_windows :: "string \<Rightarrow> Process \<Rightarrow> bool" where
  "ShouldTrack_windows exePath proc =
     (case Name proc of
        None \<Rightarrow> False
      | Some name \<Rightarrow>
          (let nameLower = ToLower name in
           if nameLower = ''cmd.exe'' \<or> nameLower = ''powershell.exe'' \<or> nameLower = ''pwsh.exe''
           then (if parent_is_explorer proc then True else False)
           else if \<not> HasVisibleWindow proc then False
           else if parent_is_explorer proc then True
           else True))"

text \<open>The stubs of \<open>rules_linux.go\<close>.\<close>

definition ShouldExclude_linux :: "string \<Rightarrow> Process \<Rightarrow> bool" where
  "ShouldExclude_linux exePath proc =
     (let exePathLower = ToLower exePath in
      if Contains exePathLower ''procguard'' then True else False)"

definition ShouldTrack_linux :: "string \<Rightarrow> Process \<Rightarrow> bool" where
  "ShouldTrack_linux exePath proc = True"

text \<open>The build tag selects one pair of rules; the monitor is written against the pair.\<close>

record app_filter =
  ShouldExclude :: "string \<Rightarrow> Process \<Rightarrow> bool"
  ShouldTrack :: "string \<Rightarrow> Process \<Rightarrow> bool"

definition windows_rules :: app_filter where
  "windows_rules = \<lparr>ShouldExclude = ShouldExclude_windows, ShouldTrack = ShouldTrack_windows\<rparr>"

definition linux_rules :: app_filter where
  "linux_rules = \<lparr>ShouldExclude = ShouldExclude_linux, ShouldTrack = ShouldTrack_linux\<rparr>"

section \<open>Write requests and the monitor's state\<close>

text \<open>
  A \<open>WriteRequest\<close> is a statement with its arguments. The monitor enqueues two
  statements only:
  \<^item> \<open>EndWrite t i\<close> is
    \<open>UPDATE app_events SET end_time = t WHERE pid = i AND end_time IS NULL\<close>;
  \<^item> \<open>InsertWrite name i parent exe t\<close> is
    \<open>INSERT INTO app_events (process_name, pid, parent_process_name, exe_path, start_time)
    VALUES (name, i, parent, exe, t)\<close>.
\<close>

datatype WriteRequest =
    EndWrite int int32
  | InsertWrite string int32 string string int

fun is_insert :: "WriteRequest \<Rightarrow> bool" where
  "is_insert (InsertWrite name i parent exe t) = True"
| "is_insert (EndWrite t i) = False"

fun is_end :: "WriteRequest \<Rightarrow> bool" where
  "is_end (EndWrite t i) = True"
| "is_end (InsertWrite name i parent exe t) = False"

fun write_pid :: "WriteRequest \<Rightarrow> int32" where
  "write_pid (EndWrite t i) = i"
| "write_pid (InsertWrite name i parent exe t) = i"

text \<open>
  \<open>loggerState\<close>: the ledger \<open>runningProcs\<close> (PID to lowercase name) and the instance
  counts \<open>runningAppCounts\<close>. A Go map read of an absent key gives the zero value, which
  \<open>count_of\<close> writes out. The counts are Go \<open>int\<close>s; they move by one per ledger change
  and the ledger has at most \<open>2 ^ 32\<close> keys, so they are modelled as unbounded integers.
\<close>

record loggerState =
  runningProcs :: "int32 \<rightharpoonup> string"
  runningAppCounts :: "string \<rightharpoonup> int"

definition count_of :: "loggerState \<Rightarrow> string \<Rightarrow> int" where
  "count_of s nameLower = (case runningAppCounts s nameLower of None \<Rightarrow> 0 | Some c \<Rightarrow> c)"

definition empty_state :: loggerState where
  "empty_state = \<lparr>runningProcs = Map.empty, runningAppCounts = Map.empty\<rparr>"

text \<open>The number of ledger entries recorded under a name.\<close>

definition entries :: "(int32 \<rightharpoonup> string) \<Rightarrow> string \<Rightarrow> nat" where
  "entries m nameLower = card {i. m i = Some nameLower}"

definition ledger_entries :: "loggerState \<Rightarrow> string \<Rightarrow> nat" where
  "ledger_entries s nameLower = entries (runningProcs s) nameLower"

text \<open>
  \<open>currentPids\<close> as the tick builds it from the process list: a \<open>map[int32]bool\<close> that is
  true exactly on the listed identifiers.
\<close>

definition currentPids :: "Process list \<Rightarrow> int32 \<Rightarrow> bool" where
  "currentPids procs i = (i \<in> set (map Pid procs))"

section \<open>The reference-counting logger\<close>

text \<open>
  The functions below work on a pair: the \<open>loggerState\<close> and the list of the write
  requests enqueued so far, oldest first (\<open>EnqueueWrite\<close> appends). \<open>time.Now().Unix()\<close>
  is the parameter \<open>now\<close>, one reading for a tick.

  One pass of the body of the loop of \<open>logEndedProcesses\<close>, at key \<open>i\<close>. A key that has
  no entry is not visited by \<open>range\<close>.
\<close>

definition logEndedProcess ::
  "(int32 \<Rightarrow> bool) \<Rightarrow> int \<Rightarrow> int32 \<Rightarrow> loggerState \<times> WriteRequest list \<Rightarrow>
   loggerState \<times> WriteRequest list" where
  "logEndedProcess cur now i = (\<lambda>(s, q).
     case runningProcs s i of
       None \<Rightarrow> (s, q)
     | Some nameLower \<Rightarrow>
         if \<not> cur i then
           (let c = count_of s nameLower - 1 in
            (s\<lparr>runningProcs := (runningProcs s)(i := None),
               runningAppCounts :=
                 (if c \<le> 0 then (runningAppCounts s)(nameLower := None)
                  else (runningAppCounts s)(nameLower \<mapsto> c))\<rparr>,
             q @ [EndWrite now i]))
         else (s, q))"

text \<open>
  \<open>logEndedProcesses\<close>. Go leaves the order in which \<open>range\<close> visits a map open; it is
  the parameter \<open>order\<close>, the keys in the order the run-time system picked. The loop of
  the source is the case where \<open>order\<close> lists the keys of \<open>runningProcs\<close> once each
  (\<open>range_order\<close>); the only entry a pass deletes is its own.
\<close>

definition logEndedProcesses ::
  "(int32 \<Rightarrow> bool) \<Rightarrow> int \<Rightarrow> int32 list \<Rightarrow> loggerState \<times> WriteRequest list \<Rightarrow>
   loggerState \<times> WriteRequest list" where
  "logEndedProcesses cur now order = fold (logEndedProcess cur now) order"

definition range_order :: "loggerState \<Rightarrow> int32 list \<Rightarrow> bool" where
  "range_order s order = (distinct order \<and> set order = dom (runningProcs s))"

text \<open>The parent's name as the insert records it: empty unless both lookups succeed.\<close>

definition parentName_of :: "Process \<Rightarrow> string" where
  "parentName_of p = (case ParentName p of Some (Some n) \<Rightarrow> n | _ \<Rightarrow> [])"

text \<open>One pass of the body of the loop of \<open>logNewProcesses\<close>, at process \<open>p\<close>.\<close>

definition logNewProcess ::
  "app_filter \<Rightarrow> int \<Rightarrow> Process \<Rightarrow> loggerState \<times> WriteRequest list \<Rightarrow>
   loggerState \<times> WriteRequest list" where
  "logNewProcess F now p = (\<lambda>(s, q).
     if runningProcs s (Pid p) \<noteq> None then (s, q)
     else case Name p of
       None \<Rightarrow> (s, q)
     | Some name \<Rightarrow>
         if name = [] then (s, q)
         else
           (let nameLower = ToLower name in
            case Exe p of
              None \<Rightarrow> (s, q)
            | Some exePath \<Rightarrow>
                if ShouldExclude F exePath p then
                  (s\<lparr>runningProcs := (runningProcs s)(Pid p \<mapsto> nameLower)\<rparr>, q)
                else if count_of s nameLower > 0 then
                  (s\<lparr>runningProcs := (runningProcs s)(Pid p \<mapsto> nameLower),
                     runningAppCounts :=
                       (runningAppCounts s)(nameLower \<mapsto> count_of s nameLower + 1)\<rparr>, q)
                else if \<not> ShouldTrack F exePath p then (s, q)
                else
                  (s\<lparr>runningProcs := (runningProcs s)(Pid p \<mapsto> nameLower),
                     runningAppCounts :=
                       (runningAppCounts s)(nameLower \<mapsto> count_of s nameLower + 1)\<rparr>,
                   q @ [InsertWrite name (Pid p) (parentName_of p) exePath now])))"

definition logNewProcesses ::
  "app_filter \<Rightarrow> int \<Rightarrow> Process list \<Rightarrow> loggerState \<times> WriteRequest list \<Rightarrow>
   loggerState \<times> WriteRequest list" where
  "logNewProcesses F now procs = fold (logNewProcess F now) procs"

text \<open>
  \<open>initializeRunningProcs\<close>. \<open>rows\<close> is what \<open>db.Query\<close> gave: \<open>None\<close> when the query failed
  (the function returns at once), else the rows, each \<open>None\<close> when \<open>rows.Scan\<close> failed on it
  (the row is skipped) or the pair of its \<open>pid\<close> and \<open>process_name\<close>. \<open>PidExists\<close> is the
  boolean that \<open>process.PidExists\<close> returns; its error is dropped by the source.
\<close>

definition seedRow ::
  "(int32 \<Rightarrow> bool) \<Rightarrow> int \<Rightarrow> (int32 \<times> string) option \<Rightarrow> loggerState \<times> WriteRequest list \<Rightarrow>
   loggerState \<times> WriteRequest list" where
  "seedRow PidExists now row = (\<lambda>(s, q).
     case row of
       None \<Rightarrow> (s, q)
     | Some (i, name) \<Rightarrow>
         if PidExists i then
           (let nameLower = ToLower name in
            (s\<lparr>runningProcs := (runningProcs s)(i \<mapsto> nameLower),
               runningAppCounts :=
                 (runningAppCounts s)(nameLower \<mapsto> count_of s nameLower + 1)\<rparr>, q))
         else (s, q @ [EndWrite now i]))"

definition initializeRunningProcs ::
  "(int32 \<Rightarrow> bool) \<Rightarrow> int \<Rightarrow> (int32 \<times> string) option list option \<Rightarrow>
   loggerState \<times> WriteRequest list \<Rightarrow> loggerState \<times> WriteRequest list" where
  "initializeRunningProcs PidExists now rows c =
     (case rows of
        None \<Rightarrow> c
      | Some rs \<Rightarrow> fold (seedRow PidExists now) rs c)"

text \<open>
  The monitor loop. Each turn of \<open>select\<close> is an event: a tick whose \<open>process.Processes()\<close>
  succeeded (with the process list, the order \<open>range\<close> takes and the clock), a tick on
  which it failed, or the receipt of a reset signal. \<open>appLog\<close> holds the lines the loop
  prints to its logger; the line of a failed tick is kept without the text of the
  error. The loop is the only goroutine that touches the state, and it takes the
  mutex around each of the three updates, so an event is one step.
\<close>

datatype event =
    Tick "Process list" "int32 list" int
  | TickFailed
  | Reset

record monitor =
  state :: loggerState
  enqueued :: "WriteRequest list"
  appLog :: "string list"

fun monitor_step :: "app_filter \<Rightarrow> monitor \<Rightarrow> event \<Rightarrow> monitor" where
  "monitor_step F m (Tick procs order now) =
     (let (s, q) = logNewProcesses F now procs
                     (logEndedProcesses (currentPids procs) now order (state m, enqueued m))
      in m\<lparr>state := s, enqueued := q\<rparr>)"
| "monitor_step F m TickFailed = m\<lparr>appLog := appLog m @ [''Failed to get processes'']\<rparr>"
| "monitor_step F m Reset =
     m\<lparr>state := empty_state,
       appLog := appLog m @ [''[Logger] Reset signal received. Clearing in-memory state.'']\<rparr>"

text \<open>
  \<open>StartProcessEventLogger\<close>: empty maps, the seeding, then the loop over the events.
\<close>

definition startup ::
  "(int32 \<Rightarrow> bool) \<Rightarrow> int \<Rightarrow> (int32 \<times> string) option list option \<Rightarrow> monitor" where
  "startup PidExists now rows =
     (let (s, q) = initializeRunningProcs PidExists now rows (empty_state, [])
      in \<lparr>state = s, enqueued = q, appLog = []\<rparr>)"

definition StartProcessEventLogger ::
  "app_filter \<Rightarrow> (int32 \<Rightarrow> bool) \<Rightarrow> int \<Rightarrow> (int32 \<times> string) option list option \<Rightarrow>
   event list \<Rightarrow> monitor" where
  "StartProcessEventLogger F PidExists now rows evs =
     foldl (monitor_step F) (startup PidExists now rows) evs"

text \<open>The processes that the ticks of a run list, and two properties of a listed process.\<close>

fun tick_procs :: "event \<Rightarrow> Process list" where
  "tick_procs (Tick procs order now) = procs"
| "tick_procs TickFailed = []"
| "tick_procs Reset = []"

definition observed :: "event list \<Rightarrow> Process list" where
  "observed evs = concat (map tick_procs evs)"

definition excluded :: "app_filter \<Rightarrow> Process \<Rightarrow> bool" where
  "excluded F p = (case Exe p of None \<Rightarrow> False | Some exePath \<Rightarrow> ShouldExclude F exePath p)"

definition name_of :: "Process \<Rightarrow> string" where
  "name_of p = (case Name p of None \<Rightarrow> [] | Some name \<Rightarrow> name)"

definition exe_of :: "Process \<Rightarrow> string" where
  "exe_of p = (case Exe p of None \<Rightarrow> [] | Some exePath \<Rightarrow> exePath)"

text \<open>
  \<open>qualifies\<close>: name and executable path are read, the name is not empty, and the
  rules neither exclude the process nor refuse to track it. \<open>insert_of\<close> is the insert
  that \<open>logNewProcesses\<close> enqueues for such a process.
\<close>

definition qualifies :: "app_filter \<Rightarrow> Process \<Rightarrow> bool" where
  "qualifies F p =
     (case Name p of
        None \<Rightarrow> False
      | Some name \<Rightarrow>
          name \<noteq> [] \<and>
          (case Exe p of
             None \<Rightarrow> False
           | Some exePath \<Rightarrow> \<not> ShouldExclude F exePath p \<and> ShouldTrack F exePath p))"

definition insert_of :: "int \<Rightarrow> Process \<Rightarrow> WriteRequest" where
  "insert_of now p = InsertWrite (name_of p) (Pid p) (parentName_of p) (exe_of p) now"

definition under_system_dir :: "string \<Rightarrow> bool" where
  "under_system_dir exePath =
     (Contains (ToLower exePath) system32_dir \<or> Contains (ToLower exePath) syswow64_dir)"

section \<open>The store\<close>

text \<open>
  Modelled from the spec: the table \<open>app_events\<close> (\<open>schema.AppSchema\<close> is not among the
  sources), with the columns the two statements and the spec name; \<open>end_time\<close> is
  nullable and an insert leaves it null.
\<close>

record app_event =
  process_name :: string
  pid :: int32
  parent_process_name :: string
  exe_path :: string
  start_time :: int
  end_time :: "int option"

fun exec_write :: "WriteRequest \<Rightarrow> app_event list \<Rightarrow> app_event list" where
  "exec_write (EndWrite t i) db =
     map (\<lambda>r. if pid r = i \<and> end_time r = None then r\<lparr>end_time := Some t\<rparr> else r) db"
| "exec_write (InsertWrite name i parent exe t) db =
     db @ [\<lparr>process_name = name, pid = i, parent_process_name = parent, exe_path = exe,
            start_time = t, end_time = None\<rparr>]"

definition exec_all :: "WriteRequest list \<Rightarrow> app_event list \<Rightarrow> app_event list" where
  "exec_all ws db = fold exec_write ws db"

definition open_rows :: "app_event list \<Rightarrow> app_event list" where
  "open_rows db = filter (\<lambda>r. end_time r = None) db"

definition at_most_one_open :: "app_event list \<Rightarrow> bool" where
  "at_most_one_open db = distinct (map pid (open_rows db))"

text \<open>
  What \<open>db.Query\<close> gives \<open>initializeRunningProcs\<close> when the query and every scan succeed:
  \<open>SELECT pid, process_name FROM app_events WHERE end_time IS NULL\<close>.
\<close>

definition open_query :: "app_event list \<Rightarrow> (int32 \<times> string) option list option" where
  "open_query db = Some (map (\<lambda>r. Some (pid r, process_name r)) (open_rows db))"

text \<open>The rows that were scanned, and among them those whose process still exists.\<close>

definition scanned :: "(int32 \<times> string) option list option \<Rightarrow> (int32 \<times> string) list" where
  "scanned rows =
     (case rows of
        None \<Rightarrow> []
      | Some rs \<Rightarrow> concat (map (\<lambda>r. case r of None \<Rightarrow> [] | Some x \<Rightarrow> [x]) rs))"

definition live_rows ::
  "(int32 \<Rightarrow> bool) \<Rightarrow> (int32 \<times> string) list \<Rightarrow> (int32 \<times> string) list" where
  "live_rows PidExists rs = filter (\<lambda>r. PidExists (fst r)) rs"

definition stale_rows ::
  "(int32 \<Rightarrow> bool) \<Rightarrow> (int32 \<times> string) list \<Rightarrow> (int32 \<times> string) list" where
  "stale_rows PidExists rs = filter (\<lambda>r. \<not> PidExists (fst r)) rs"

section \<open>The write queue's consumer\<close>

text \<open>
  \<open>db.Exec\<close> is a parameter: from the store and a request it gives the store afterwards
  and the error, if any. The consumer's state is the store, the lines it has printed
  with \<open>log.Printf\<close>, and the requests it has passed to \<open>db.Exec\<close>, in order.
\<close>

record 'db writer =
  store :: 'db
  errLog :: "string list"
  calls :: "WriteRequest list"

definition writer_step ::
  "('db \<Rightarrow> WriteRequest \<Rightarrow> 'db \<times> string option) \<Rightarrow> WriteRequest \<Rightarrow> 'db writer \<Rightarrow> 'db writer" where
  "writer_step Exec req w =
     (case Exec (store w) req of
        (db', None) \<Rightarrow> w\<lparr>store := db', calls := calls w @ [req]\<rparr>
      | (db', Some err) \<Rightarrow>
          w\<lparr>store := db', calls := calls w @ [req],
            errLog := errLog w @ [''[ERROR] Failed to execute write request: '' @ err]\<rparr>)"

text \<open>
  \<open>StartDatabaseWriter\<close> on the requests it receives from \<open>writeCh\<close>, oldest first. The
  channel is first-in first-out; its capacity of 100 makes \<open>EnqueueWrite\<close> wait when it
  is full and changes neither the requests nor their order.
\<close>

definition StartDatabaseWriter ::
  "('db \<Rightarrow> WriteRequest \<Rightarrow> 'db \<times> string option) \<Rightarrow> WriteRequest list \<Rightarrow> 'db writer \<Rightarrow> 'db writer" where
  "StartDatabaseWriter Exec reqs w = fold (writer_step Exec) reqs w"

text \<open>The number of requests of \<open>reqs\<close> on which \<open>db.Exec\<close> returns an error.\<close>

fun failed_calls ::
  "('db \<Rightarrow> WriteRequest \<Rightarrow> 'db \<times> string option) \<Rightarrow> WriteRequest list \<Rightarrow> 'db \<Rightarrow> nat" where
  "failed_calls Exec [] db = 0"
| "failed_calls Exec (req # reqs) db =
     (case Exec db req of
        (db', None) \<Rightarrow> failed_calls Exec reqs db'
      | (db', Some err) \<Rightarrow> Suc (failed_calls Exec reqs db'))"

text \<open>
  The two goroutines together. The channel holds the requests the monitor has enqueued
  and the consumer has not yet received: \<open>drop (length (calls (consumer y))) (enqueued
  (logger y))\<close>. A turn is one event of the monitor loop or one pass of the consumer's
  loop, which waits when the channel is empty.
\<close>

record 'db system =
  logger :: monitor
  consumer :: "'db writer"

datatype turn = MonitorTurn event | WriterTurn

fun system_step ::
  "app_filter \<Rightarrow> ('db \<Rightarrow> WriteRequest \<Rightarrow> 'db \<times> string option) \<Rightarrow> 'db system \<Rightarrow> turn \<Rightarrow>
   'db system" where
  "system_step F Exec y (MonitorTurn e) = y\<lparr>logger := monitor_step F (logger y) e\<rparr>"
| "system_step F Exec y WriterTurn =
     (case drop (length (calls (consumer y))) (enqueued (logger y)) of
        [] \<Rightarrow> y
      | req # rest \<Rightarrow> y\<lparr>consumer := writer_step Exec req (consumer y)\<rparr>)"

text \<open>A store on which every insert fails and is logged, and every update succeeds.\<close>

definition failing_inserts :: "app_event list \<Rightarrow> WriteRequest \<Rightarrow> app_event list \<times> string option" where
  "failing_inserts db req =
     (if is_insert req then (db, Some ''disk I/O error'') else (exec_write req db, None))"

section \<open>The reset channel\<close>

text \<open>
  \<open>resetLoggerCh\<close> is a channel with a buffer of one. \<open>buffered\<close> counts the signals in
  the buffer, \<open>blocked\<close> the callers of \<open>ResetLoggedApps\<close> whose send is waiting for room.
  \<open>ResetLoggedApps\<close> is the plain send \<open>resetLoggerCh <- struct{}{}\<close>: it completes when
  the buffer has room and waits otherwise. A receive takes the buffered signal; a
  waiting sender's signal then moves into the buffer and that sender goes on.
\<close>

record chan =
  buffered :: nat
  blocked :: nat

definition empty_chan :: chan where
  "empty_chan = \<lparr>buffered = 0, blocked = 0\<rparr>"

definition ResetLoggedApps :: "chan \<Rightarrow> chan" where
  "ResetLoggedApps c =
     (if buffered c < 1 then c\<lparr>buffered := buffered c + 1\<rparr>
      else c\<lparr>blocked := blocked c + 1\<rparr>)"

definition receive :: "chan \<Rightarrow> chan option" where
  "receive c =
     (if buffered c = 0 then None
      else if 0 < blocked c then Some (c\<lparr>blocked := blocked c - 1\<rparr>)
      else Some (c\<lparr>buffered := buffered c - 1\<rparr>))"

text \<open>
  The loop with its channel: a call of \<open>ResetLoggedApps\<close>, a tick, or the \<open>select\<close> taking
  the reset case, which it can only when a signal is buffered (\<open>None\<close>: that turn cannot
  be taken in this state).
\<close>

datatype action = Post | Select event

fun loop_step :: "app_filter \<Rightarrow> chan \<times> monitor \<Rightarrow> action \<Rightarrow> (chan \<times> monitor) option" where
  "loop_step F (c, m) Post = Some (ResetLoggedApps c, m)"
| "loop_step F (c, m) (Select Reset) =
     (case receive c of
        None \<Rightarrow> None
      | Some c' \<Rightarrow> Some (c', monitor_step F m Reset))"
| "loop_step F (c, m) (Select e) = Some (c, monitor_step F m e)"

fun loop_run :: "app_filter \<Rightarrow> chan \<times> monitor \<Rightarrow> action list \<Rightarrow> (chan \<times> monitor) option" where
  "loop_run F cm [] = Some cm"
| "loop_run F cm (a # as) =
     (case loop_step F cm a of
        None \<Rightarrow> None
      | Some cm' \<Rightarrow> loop_run F cm' as)"

section \<open>The boolean-map logger\<close>

text \<open>
  The second \<open>StartProcessEventLogger\<close> of \<open>logging.go\<close>: \<open>runningProcs\<close> is a
  \<open>map[int32]bool\<close> local to the goroutine, \<open>loggedApps\<close> a global \<open>map[string]bool\<close>.
  A read of an absent key gives \<open>false\<close>. Its functions carry the suffix \<open>_bool\<close>.
\<close>

record boolState =
  runningProcs_bool :: "int32 \<rightharpoonup> bool"
  loggedApps :: "string \<rightharpoonup> bool"

record monitor_bool =
  state_bool :: boolState
  enqueued_bool :: "WriteRequest list"
  appLog_bool :: "string list"

definition is_set :: "('k \<rightharpoonup> bool) \<Rightarrow> 'k \<Rightarrow> bool" where
  "is_set m k = (case m k of None \<Rightarrow> False | Some b \<Rightarrow> b)"

definition empty_bool :: boolState where
  "empty_bool = \<lparr>runningProcs_bool = Map.empty, loggedApps = Map.empty\<rparr>"

definition logEndedProcess_bool ::
  "(int32 \<Rightarrow> bool) \<Rightarrow> int \<Rightarrow> int32 \<Rightarrow> monitor_bool \<Rightarrow> monitor_bool" where
  "logEndedProcess_bool cur now i m =
     (case runningProcs_bool (state_bool m) i of
        None \<Rightarrow> m
      | Some b \<Rightarrow>
          if \<not> cur i then
            m\<lparr>state_bool := (state_bool m)
                 \<lparr>runningProcs_bool := (runningProcs_bool (state_bool m))(i := None)\<rparr>,
              enqueued_bool := enqueued_bool m @ [EndWrite now i]\<rparr>
          else m)"

definition logEndedProcesses_bool ::
  "(int32 \<Rightarrow> bool) \<Rightarrow> int \<Rightarrow> int32 list \<Rightarrow> monitor_bool \<Rightarrow> monitor_bool" where
  "logEndedProcesses_bool cur now order = fold (logEndedProcess_bool cur now) order"

text \<open>\<open>shouldLogProcess\<close>: the answer and the state, in which it may have set \<open>loggedApps\<close>.\<close>

definition shouldLogProcess :: "app_filter \<Rightarrow> Process \<Rightarrow> boolState \<Rightarrow> bool \<times> boolState" where
  "shouldLogProcess F p s =
     (case Name p of
        None \<Rightarrow> (False, s)
      | Some name \<Rightarrow>
          if name = [] then (False, s)
          else
            (let nameLower = ToLower name in
             if is_set (loggedApps s) nameLower then (False, s)
             else case Exe p of
               None \<Rightarrow> (False, s)
             | Some exePath \<Rightarrow>
                 if ShouldExclude F exePath p then (False, s)
                 else if \<not> ShouldTrack F exePath p then (False, s)
                 else (True, s\<lparr>loggedApps := (loggedApps s)(nameLower \<mapsto> True)\<rparr>)))"

definition logNewProcess_bool ::
  "app_filter \<Rightarrow> int \<Rightarrow> Process \<Rightarrow> monitor_bool \<Rightarrow> monitor_bool" where
  "logNewProcess_bool F now p m =
     (if \<not> is_set (runningProcs_bool (state_bool m)) (Pid p) then
        (case shouldLogProcess F p (state_bool m) of
           (False, s) \<Rightarrow> m\<lparr>state_bool := s\<rparr>
         | (True, s) \<Rightarrow>
             m\<lparr>state_bool := s\<lparr>runningProcs_bool := (runningProcs_bool s)(Pid p \<mapsto> True)\<rparr>,
               enqueued_bool := enqueued_bool m @
                 [InsertWrite (name_of p) (Pid p) (parentName_of p) (exe_of p) now],
               appLog_bool :=
                 (case Exe p of
                    None \<Rightarrow> appLog_bool m @ [''Failed to get exe path for '' @ name_of p]
                  | Some exePath \<Rightarrow> appLog_bool m)\<rparr>)
      else m)"

definition logNewProcesses_bool ::
  "app_filter \<Rightarrow> int \<Rightarrow> Process list \<Rightarrow> monitor_bool \<Rightarrow> monitor_bool" where
  "logNewProcesses_bool F now procs = fold (logNewProcess_bool F now) procs"

definition seedRow_bool ::
  "(int32 \<Rightarrow> bool) \<Rightarrow> int \<Rightarrow> int32 option \<Rightarrow> monitor_bool \<Rightarrow> monitor_bool" where
  "seedRow_bool PidExists now row m =
     (case row of
        None \<Rightarrow> m
      | Some i \<Rightarrow>
          if PidExists i then
            m\<lparr>state_bool := (state_bool m)
                 \<lparr>runningProcs_bool := (runningProcs_bool (state_bool m))(i \<mapsto> True)\<rparr>\<rparr>
          else m\<lparr>enqueued_bool := enqueued_bool m @ [EndWrite now i]\<rparr>)"

definition initializeRunningProcs_bool ::
  "(int32 \<Rightarrow> bool) \<Rightarrow> int \<Rightarrow> int32 option list option \<Rightarrow> monitor_bool \<Rightarrow> monitor_bool" where
  "initializeRunningProcs_bool PidExists now rows m =
     (case rows of
        None \<Rightarrow> m
      | Some rs \<Rightarrow> fold (seedRow_bool PidExists now) rs m)"

fun monitor_step_bool :: "app_filter \<Rightarrow> monitor_bool \<Rightarrow> event \<Rightarrow> monitor_bool" where
  "monitor_step_bool F m (Tick procs order now) =
     logNewProcesses_bool F now procs (logEndedProcesses_bool (currentPids procs) now order m)"
| "monitor_step_bool F m TickFailed =
     m\<lparr>appLog_bool := appLog_bool m @ [''Failed to get processes'']\<rparr>"
| "monitor_step_bool F m Reset =
     m\<lparr>state_bool := empty_bool,
       appLog_bool := appLog_bool m @
         [''[Logger] Reset signal received. Clearing in-memory state.'']\<rparr>"

definition StartProcessEventLogger_bool ::
  "app_filter \<Rightarrow> (int32 \<Rightarrow> bool) \<Rightarrow> int \<Rightarrow> int32 option list option \<Rightarrow> event list \<Rightarrow>
   monitor_bool" where
  "StartProcessEventLogger_bool F PidExists now rows evs =
     foldl (monitor_step_bool F)
       (initializeRunningProcs_bool PidExists now rows
          \<lparr>state_bool = empty_bool, enqueued_bool = [], appLog_bool = []\<rparr>) evs"

section \<open>Sample processes\<close>

text \<open>
  A user application with a visible window, started from the desktop shell at
  \<open>C:\Apps\Editor.exe\<close>, and a service host at \<open>C:\Windows\System32\svchost.exe\<close>, which
  also shows a window.
\<close>

definition editor :: "int32 \<Rightarrow> Process" where
  "editor i =
     \<lparr>Pid = i, Name = Some ''Editor.exe'',
      Exe = Some (''C:'' @ bsl # ''Apps'' @ bsl # ''Editor.exe''),
      ParentName = Some (Some ''explorer.exe''), ProductName = Some ''Editor'',
      ProcessLevel = Some 0x2000, HasVisibleWindow = True\<rparr>"

definition svchost :: "int32 \<Rightarrow> Process" where
  "svchost i =
     \<lparr>Pid = i, Name = Some ''svchost.exe'',
      Exe = Some (''C:'' @ bsl # ''Windows'' @ bsl # ''System32'' @ bsl # ''svchost.exe''),
      ParentName = Some (Some ''services.exe''), ProductName = None,
      ProcessLevel = Some 0x2000, HasVisibleWindow = True\<rparr>"

text \<open>A second application, \<open>C:\Apps\Player.exe\<close>.\<close>

definition player :: "int32 \<Rightarrow> Process" where
  "player i =
     \<lparr>Pid = i, Name = Some ''Player.exe'',
      Exe = Some (''C:'' @ bsl # ''Apps'' @ bsl # ''Player.exe''),
      ParentName = Some (Some ''explorer.exe''), ProductName = Some ''Player'',
      ProcessLevel = Some 0x2000, HasVisibleWindow = True\<rparr>"

text \<open>A system component that carries the editor's name, at
  \<open>C:\Windows\System32\Editor.exe\<close>.\<close>

definition system_editor :: "int32 \<Rightarrow> Process" where
  "system_editor i =
     \<lparr>Pid = i, Name = Some ''Editor.exe'',
      Exe = Some (''C:'' @ bsl # ''Windows'' @ bsl # ''System32'' @ bsl # ''Editor.exe''),
      ParentName = Some (Some ''services.exe''), ProductName = None,
      ProcessLevel = Some 0x2000, HasVisibleWindow = False\<rparr>"

section \<open>What the seeding reads\<close>

text \<open>
  The pairs that the startup query selects from the store, and a row of the ledger as
  the seeding records it, the name in lower case.
\<close>

definition selected :: "app_event list \<Rightarrow> (int32 \<times> string) list" where
  "selected db = map (\<lambda>r. (pid r, process_name r)) (open_rows db)"

definition lower_row :: "int32 \<times> string \<Rightarrow> int32 \<times> string" where
  "lower_row r = (fst r, ToLower (snd r))"

text \<open>A store with two open rows, for the identifiers 1 and 2, and a closed one.\<close>

definition sample_db :: "app_event list" where
  "sample_db =
     [\<lparr>process_name = ''Editor.exe'', pid = 1, parent_process_name = ''explorer.exe'',
       exe_path = ''Editor.exe'', start_time = 10, end_time = None\<rparr>,
      \<lparr>process_name = ''Player.exe'', pid = 2, parent_process_name = ''explorer.exe'',
       exe_path = ''Player.exe'', start_time = 20, end_time = None\<rparr>,
      \<lparr>process_name = ''Editor.exe'', pid = 3, parent_process_name = ''explorer.exe'',
       exe_path = ''Editor.exe'', start_time = 1, end_time = Some 5\<rparr>]"

section \<open>The counts against the ledger\<close>

text \<open>
  Two relations between the counts and the ledger: no count that is stored is zero or
  negative, and the count of every name is at most, or exactly, the number of ledger
  entries under that name.
\<close>

definition counts_bounded :: "loggerState \<Rightarrow> bool" where
  "counts_bounded s =
     (\<forall>n. (\<forall>c. runningAppCounts s n = Some c \<longrightarrow> 0 < c) \<and>
          count_of s n \<le> int (ledger_entries s n))"

definition counts_exact :: "loggerState \<Rightarrow> bool" where
  "counts_exact s =
     (\<forall>n. (\<forall>c. runningAppCounts s n = Some c \<longrightarrow> 0 < c) \<and>
          count_of s n = int (ledger_entries s n))"

text \<open>
  A listed process that the rules exclude and that \<open>logNewProcesses\<close> would enter in the
  ledger under the name \<open>n\<close>; and the equality of count and entries at one name.
\<close>

definition excluded_under :: "app_filter \<Rightarrow> string \<Rightarrow> Process \<Rightarrow> bool" where
  "excluded_under F n p =
     (case Name p of
        None \<Rightarrow> False
      | Some name \<Rightarrow> name \<noteq> [] \<and> ToLower name = n \<and> excluded F p)"

definition exact_at :: "string \<Rightarrow> loggerState \<Rightarrow> bool" where
  "exact_at n s = (count_of s n = int (ledger_entries s n))"

section \<open>The store against the ledger\<close>

text \<open>
  The identifiers of the open rows, and the relation the loops keep between the
  store \<open>db\<close> at startup, the requests enqueued so far and the ledger: at most one open
  row for each identifier after every prefix of the requests, and after all of them
  every open row belongs to an identifier of the ledger or of \<open>R\<close> (the rows that the
  seeding has still to visit).
\<close>

definition open_pids :: "app_event list \<Rightarrow> int32 list" where
  "open_pids db = map pid (open_rows db)"

definition store_safe ::
  "app_event list \<Rightarrow> int32 set \<Rightarrow> loggerState \<times> WriteRequest list \<Rightarrow> bool" where
  "store_safe db R c =
     ((\<forall>k. at_most_one_open (exec_all (take k (snd c)) db)) \<and>
      set (open_pids (exec_all (snd c) db)) \<subseteq> dom (runningProcs (fst c)) \<union> R)"

section \<open>Purges and the history of the store\<close>

text \<open>
  Modelled from the spec: the history purge of an external collaborator, which removes
  the rows of \<open>app_events\<close> and after which the reset signal is sent; its code is not
  among the sources. What happens to the store, in the order in which it happens, is a
  list of operations: a request of the queue executed, or a purge.
\<close>

datatype store_op = Executed WriteRequest | Purge

fun apply_op :: "store_op \<Rightarrow> app_event list \<Rightarrow> app_event list" where
  "apply_op (Executed w) db = exec_write w db"
| "apply_op Purge db = []"

definition run_ops :: "store_op list \<Rightarrow> app_event list \<Rightarrow> app_event list" where
  "run_ops os db = fold apply_op os db"

text \<open>
  The monitor with the operations on the store so far and to come: the requests it has
  enqueued, in their order, and the purges. \<open>Purged a\<close> is a purge that takes effect
  after the first \<open>a\<close> operations: the consumer may still hold requests that were
  enqueued before it. \<open>history_start\<close> is the seeding.
\<close>

record history =
  mon :: monitor
  ops :: "store_op list"

datatype happening = Loop event | Purged nat

fun history_step :: "app_filter \<Rightarrow> history \<Rightarrow> happening \<Rightarrow> history" where
  "history_step F h (Loop e) =
     \<lparr>mon = monitor_step F (mon h) e,
      ops = ops h @ map Executed (drop (length (enqueued (mon h)))
                                    (enqueued (monitor_step F (mon h) e)))\<rparr>"
| "history_step F h (Purged a) = h\<lparr>ops := take a (ops h) @ Purge # drop a (ops h)\<rparr>"

definition history_start :: "(int32 \<Rightarrow> bool) \<Rightarrow> int \<Rightarrow> app_event list \<Rightarrow> history" where
  "history_start PidExists now db =
     \<lparr>mon = startup PidExists now (open_query db),
      ops = map Executed (enqueued (startup PidExists now (open_query db)))\<rparr>"

text \<open>
  A run in which every reset signal is received when the store, with every operation
  so far carried out, holds no open row.
\<close>

fun resets_on_closed_store ::
  "app_filter \<Rightarrow> app_event list \<Rightarrow> history \<Rightarrow> happening list \<Rightarrow> bool" where
  "resets_on_closed_store F db h [] = True"
| "resets_on_closed_store F db h (x # xs) =
     ((x = Loop Reset \<longrightarrow> open_rows (run_ops (ops h) db) = []) \<and>
      resets_on_closed_store F db (history_step F h x) xs)"

text \<open>
  The relation the run keeps: at most one open row for each identifier after every
  prefix of the operations, and after all of them every open row belongs to an
  identifier of the ledger. \<open>loop_events\<close> are the events of the loop in a run.
\<close>

definition history_safe :: "app_event list \<Rightarrow> history \<Rightarrow> bool" where
  "history_safe db h =
     ((\<forall>k. at_most_one_open (run_ops (take k (ops h)) db)) \<and>
      set (open_pids (run_ops (ops h) db)) \<subseteq> dom (runningProcs (state (mon h))))"

fun loop_events :: "happening list \<Rightarrow> event list" where
  "loop_events [] = []"
| "loop_events (Loop e # xs) = e # loop_events xs"
| "loop_events (Purged a # xs) = loop_events xs"

section \<open>The two loggers side by side\<close>

text \<open>
  The relation that one tick from empty maps keeps between the two loggers: a name has
  a count above zero in the first exactly when the second has it in \<open>loggedApps\<close>.
\<close>

definition same_logged :: "loggerState \<Rightarrow> boolState \<Rightarrow> bool" where
  "same_logged s b =
     (\<forall>n. 0 \<le> count_of s n \<and> (0 < count_of s n) = is_set (loggedApps b) n)"

section \<open>The loops, one pass at a time\<close>

lemma logEndedProcesses_Nil: "logEndedProcesses cur now [] c = c"
  by (simp add: logEndedProcesses_def)

lemma logEndedProcesses_Cons:
  "logEndedProcesses cur now (i # order) c = logEndedProcesses cur now order (logEndedProcess cur now i c)"
  by (simp add: logEndedProcesses_def)

lemma logNewProcesses_Nil: "logNewProcesses F now [] c = c"
  by (simp add: logNewProcesses_def)

lemma logNewProcesses_Cons:
  "logNewProcesses F now (p # procs) c = logNewProcesses F now procs (logNewProcess F now p c)"
  by (simp add: logNewProcesses_def)

lemma logEndedProcess_trace:
  "\<exists>ends. snd (logEndedProcess cur now i (s, q)) = q @ ends \<and>
     (\<forall>w\<in>set ends. is_end w \<and> runningProcs s (write_pid w) \<noteq> None \<and> \<not> cur (write_pid w)) \<and>
     dom (runningProcs (fst (logEndedProcess cur now i (s, q)))) \<subseteq> dom (runningProcs s)"
  by (auto simp: logEndedProcess_def Let_def split: option.splits)

lemma logEndedProcesses_trace:
  "\<exists>ends. snd (logEndedProcesses cur now order (s, q)) = q @ ends \<and>
     (\<forall>w\<in>set ends. is_end w \<and> runningProcs s (write_pid w) \<noteq> None \<and> \<not> cur (write_pid w)) \<and>
     dom (runningProcs (fst (logEndedProcesses cur now order (s, q)))) \<subseteq> dom (runningProcs s)"
proof (induction order arbitrary: s q)
  case Nil
  show ?case by (simp add: logEndedProcesses_Nil)
next
  case (Cons i order)
  obtain s1 q1 where c1: "logEndedProcess cur now i (s, q) = (s1, q1)"
    by (cases "logEndedProcess cur now i (s, q)")
  from logEndedProcess_trace [of cur now i s q] c1
  obtain e1 where e1: "q1 = q @ e1"
    "\<forall>w\<in>set e1. is_end w \<and> runningProcs s (write_pid w) \<noteq> None \<and> \<not> cur (write_pid w)"
    "dom (runningProcs s1) \<subseteq> dom (runningProcs s)"
    by auto
  from Cons.IH [of s1 q1]
  obtain e2 where e2: "snd (logEndedProcesses cur now order (s1, q1)) = q1 @ e2"
    "\<forall>w\<in>set e2. is_end w \<and> runningProcs s1 (write_pid w) \<noteq> None \<and> \<not> cur (write_pid w)"
    "dom (runningProcs (fst (logEndedProcesses cur now order (s1, q1)))) \<subseteq> dom (runningProcs s1)"
    by auto
  have "\<forall>w\<in>set (e1 @ e2). is_end w \<and> runningProcs s (write_pid w) \<noteq> None \<and> \<not> cur (write_pid w)"
    using e1(2,3) e2(2) by (auto simp: dom_def subset_iff)
  moreover have "snd (logEndedProcesses cur now (i # order) (s, q)) = q @ (e1 @ e2)"
    using e1(1) e2(1) c1 by (simp add: logEndedProcesses_Cons)
  moreover have "dom (runningProcs (fst (logEndedProcesses cur now (i # order) (s, q)))) \<subseteq> dom (runningProcs s)"
    using e1(3) e2(3) c1 by (auto simp: logEndedProcesses_Cons)
  ultimately show ?case by blast
qed

lemma logNewProcess_trace:
  "\<exists>news. snd (logNewProcess F now p (s, q)) = q @ news \<and>
     (\<forall>w\<in>set news. is_insert w \<and> write_pid w = Pid p \<and> runningProcs s (Pid p) = None)"
  by (auto simp: logNewProcess_def Let_def split: option.splits)

lemma logNewProcesses_trace:
  "\<exists>news. snd (logNewProcesses F now procs (s, q)) = q @ news \<and>
     (\<forall>w\<in>set news. is_insert w \<and> write_pid w \<in> Pid ` set procs)"
proof (induction procs arbitrary: s q)
  case Nil
  show ?case by (simp add: logNewProcesses_Nil)
next
  case (Cons p procs)
  obtain s1 q1 where c1: "logNewProcess F now p (s, q) = (s1, q1)"
    by (cases "logNewProcess F now p (s, q)")
  from logNewProcess_trace [of F now p s q] c1
  obtain n1 where n1: "q1 = q @ n1" "\<forall>w\<in>set n1. is_insert w \<and> write_pid w = Pid p"
    by auto
  from Cons.IH [of s1 q1]
  obtain n2 where n2: "snd (logNewProcesses F now procs (s1, q1)) = q1 @ n2"
    "\<forall>w\<in>set n2. is_insert w \<and> write_pid w \<in> Pid ` set procs"
    by auto
  have "\<forall>w\<in>set (n1 @ n2). is_insert w \<and> write_pid w \<in> Pid ` set (p # procs)"
    using n1(2) n2(2) by auto
  moreover have "snd (logNewProcesses F now (p # procs) (s, q)) = q @ (n1 @ n2)"
    using n1(1) n2(1) c1 by (simp add: logNewProcesses_Cons)
  ultimately show ?case by blast
qed


section \<open>The sample processes under the Windows rules\<close>

lemma ToLower_Editor: "ToLower ''Editor.exe'' = ''editor.exe''"
  by (simp add: ToLower_def lower_char_def)

lemma editor_fields:
  "Pid (editor i) = i" "Name (editor i) = Some ''Editor.exe''"
  "Exe (editor i) = Some (''C:'' @ bsl # ''Apps'' @ bsl # ''Editor.exe'')"
  by (simp_all add: editor_def)

lemma editor_not_excluded:
  "\<not> ShouldExclude windows_rules (''C:'' @ bsl # ''Apps'' @ bsl # ''Editor.exe'') (editor i)"
  by (simp add: windows_rules_def ShouldExclude_windows_def ToLower_def lower_char_def
      HasSuffix_def system32_dir_def syswow64_dir_def editor_def windows_product_def
      SystemRID_def)

lemma editor_tracked:
  "ShouldTrack windows_rules (''C:'' @ bsl # ''Apps'' @ bsl # ''Editor.exe'') (editor i)"
  by (simp add: windows_rules_def ShouldTrack_windows_def ToLower_def lower_char_def
      editor_def parent_is_explorer_def EqualFold_def)

lemma logNew_editor:
  "logNewProcess windows_rules now (editor i) (s, q) =
    (if runningProcs s i \<noteq> None then (s, q)
     else (s\<lparr>runningProcs := (runningProcs s)(i \<mapsto> ''editor.exe''),
             runningAppCounts :=
               (runningAppCounts s)(''editor.exe'' \<mapsto> count_of s ''editor.exe'' + 1)\<rparr>,
           if count_of s ''editor.exe'' > 0 then q else q @ [insert_of now (editor i)]))"
  using editor_not_excluded [of i] editor_tracked [of i]
  by (simp add: logNewProcess_def ToLower_Editor Let_def insert_of_def name_of_def exe_of_def
      editor_fields del: append.simps)

lemmas run_defs =
  StartProcessEventLogger_def startup_def initializeRunningProcs_def seedRow_def
  logEndedProcesses_def logEndedProcess_def logNewProcesses_def currentPids_def
  count_of_def empty_state_def

section \<open>Ended processes before new ones\<close>

lemma logEndedProcess_kept:
  "j \<noteq> i \<Longrightarrow> runningProcs (fst (logEndedProcess cur now i (s, q))) j = runningProcs s j"
  by (simp add: logEndedProcess_def Let_def split: option.splits)

lemma logEndedProcess_present:
  "runningProcs s i \<noteq> None \<Longrightarrow>
   snd (logEndedProcess cur now i (s, q)) = q @ map (EndWrite now) (filter (\<lambda>j. \<not> cur j) [i])"
  by (auto simp: logEndedProcess_def Let_def split: option.splits)

lemma logEndedProcesses_ends:
  assumes "distinct order" and "\<forall>i\<in>set order. runningProcs s i \<noteq> None"
  shows "snd (logEndedProcesses cur now order (s, q)) =
         q @ map (EndWrite now) (filter (\<lambda>i. \<not> cur i) order)"
  using assms
proof (induction order arbitrary: s q)
  case Nil
  show ?case by (simp add: logEndedProcesses_Nil)
next
  case (Cons i order)
  obtain s1 q1 where c1: "logEndedProcess cur now i (s, q) = (s1, q1)"
    by (cases "logEndedProcess cur now i (s, q)")
  have here: "runningProcs s i \<noteq> None" using Cons.prems(2) by simp
  have q1: "q1 = q @ map (EndWrite now) (filter (\<lambda>j. \<not> cur j) [i])"
    using c1 logEndedProcess_present [OF here, of cur now q] by simp
  have rest: "\<forall>j\<in>set order. runningProcs s1 j \<noteq> None"
  proof
    fix j assume j: "j \<in> set order"
    then have "j \<noteq> i" using Cons.prems(1) by auto
    then have "runningProcs s1 j = runningProcs s j"
      using c1 logEndedProcess_kept [of j i cur now s q] by simp
    then show "runningProcs s1 j \<noteq> None" using Cons.prems(2) j by simp
  qed
  have "snd (logEndedProcesses cur now order (s1, q1)) =
          q1 @ map (EndWrite now) (filter (\<lambda>i. \<not> cur i) order)"
    using Cons.prems(1) rest by (intro Cons.IH) simp_all
  then show ?case using c1 by (simp add: logEndedProcesses_Cons q1)
qed

text \<open>
  C4. Let \<open>order\<close> be the order in which \<open>range\<close> visits the ledger: its keys, once each.
  Then what a tick enqueues is, first, one end-write for each identifier that the
  ledger held and the process list lacks, exactly those and each once, and after all
  of them the inserts, each for a listed process. So the end-write of a process that
  disappeared is enqueued, and it precedes every write for a process that appeared in
  the same tick, whatever their names.
\<close>

theorem tick_ends_before_news:
  assumes "range_order (state m) order"
  shows "\<exists>news.
     enqueued (monitor_step F m (Tick procs order now)) =
       enqueued m @ map (EndWrite now) (filter (\<lambda>i. \<not> currentPids procs i) order) @ news \<and>
     set (filter (\<lambda>i. \<not> currentPids procs i) order) =
       {i. runningProcs (state m) i \<noteq> None \<and> \<not> currentPids procs i} \<and>
     distinct (filter (\<lambda>i. \<not> currentPids procs i) order) \<and>
     (\<forall>w\<in>set news. is_insert w \<and> currentPids procs (write_pid w))"
proof -
  have d: "distinct order" and k: "set order = dom (runningProcs (state m))"
    using assms by (simp_all add: range_order_def)
  obtain s1 q1 where c1:
    "logEndedProcesses (currentPids procs) now order (state m, enqueued m) = (s1, q1)"
    by (cases "logEndedProcesses (currentPids procs) now order (state m, enqueued m)")
  have q1: "q1 = enqueued m @ map (EndWrite now) (filter (\<lambda>i. \<not> currentPids procs i) order)"
    using c1 logEndedProcesses_ends [OF d, of "state m" "currentPids procs" now "enqueued m"] k
    by (auto simp: dom_def)
  from logNewProcesses_trace [of F now procs s1 q1]
  obtain news where n: "snd (logNewProcesses F now procs (s1, q1)) = q1 @ news"
    "\<forall>w\<in>set news. is_insert w \<and> write_pid w \<in> Pid ` set procs"
    by auto
  have "enqueued (monitor_step F m (Tick procs order now)) =
       enqueued m @ map (EndWrite now) (filter (\<lambda>i. \<not> currentPids procs i) order) @ news"
    using c1 q1 n(1) by (simp add: split_beta)
  moreover have "\<forall>w\<in>set news. is_insert w \<and> currentPids procs (write_pid w)"
    using n(2) by (simp add: currentPids_def)
  moreover have "set (filter (\<lambda>i. \<not> currentPids procs i) order) =
       {i. runningProcs (state m) i \<noteq> None \<and> \<not> currentPids procs i}"
    using k by (auto simp: dom_def)
  moreover have "distinct (filter (\<lambda>i. \<not> currentPids procs i) order)"
    using d by simp
  ultimately show ?thesis by blast
qed

theorem tick_ends_before_news_witness:
  "range_order (state (StartProcessEventLogger windows_rules (\<lambda>i. True) 0 (Some [])
                    [Tick [editor 1] [] 50])) [1] \<and>
   (\<exists>news.
      enqueued (monitor_step windows_rules
                 (StartProcessEventLogger windows_rules (\<lambda>i. True) 0 (Some [])
                    [Tick [editor 1] [] 50])
                 (Tick [editor 2] [1] 100))
        = enqueued (StartProcessEventLogger windows_rules (\<lambda>i. True) 0 (Some [])
                    [Tick [editor 1] [] 50]) @
          map (EndWrite 100) (filter (\<lambda>i. \<not> currentPids [editor 2] i) [1]) @ news \<and>
      (\<forall>w\<in>set news. is_insert w \<and> currentPids [editor 2] (write_pid w))) \<and>
   enqueued (monitor_step windows_rules
              (StartProcessEventLogger windows_rules (\<lambda>i. True) 0 (Some [])
                 [Tick [editor 1] [] 50])
              (Tick [editor 2] [1] 100))
     = [insert_of 50 (editor 1), EndWrite 100 1, insert_of 100 (editor 2)]"
proof -
  have r: "range_order (state (StartProcessEventLogger windows_rules (\<lambda>i. True) 0 (Some [])
                    [Tick [editor 1] [] 50])) [1]"
    by (simp add: run_defs logNew_editor editor_fields range_order_def)
  have e: "enqueued (monitor_step windows_rules
              (StartProcessEventLogger windows_rules (\<lambda>i. True) 0 (Some [])
                 [Tick [editor 1] [] 50])
              (Tick [editor 2] [1] 100))
     = [insert_of 50 (editor 1), EndWrite 100 1, insert_of 100 (editor 2)]"
    by (simp add: run_defs logNew_editor editor_fields)
  from tick_ends_before_news [OF r, of windows_rules "[editor 2]" 100]
  show ?thesis using r e by blast
qed

section \<open>Seeding at startup\<close>

lemma seedRow_live:
  "PidExists i \<Longrightarrow> seedRow PidExists now (Some (i, name)) (s, q) =
     (s\<lparr>runningProcs := (runningProcs s)(i \<mapsto> ToLower name),
        runningAppCounts := (runningAppCounts s)(ToLower name \<mapsto> count_of s (ToLower name) + 1)\<rparr>, q)"
  by (simp add: seedRow_def Let_def)

lemma map_add_map_of_snoc: "m ++ map_of (L @ [(i, v)]) = m(i \<mapsto> v) ++ map_of L"
  by (rule ext) (simp add: map_add_def split: option.splits)

lemma seedRow_stale:
  "\<not> PidExists i \<Longrightarrow> seedRow PidExists now (Some (i, name)) (s, q) = (s, q @ [EndWrite now i])"
  by (simp add: seedRow_def)

lemma seed_fold_writes:
  "snd (fold (seedRow PidExists now) (map Some rs) (s, q)) =
     q @ map (\<lambda>r. EndWrite now (fst r)) (stale_rows PidExists rs)"
proof (induction rs arbitrary: s q)
  case Nil
  show ?case by (simp add: stale_rows_def)
next
  case (Cons r rs)
  obtain i name where r: "r = (i, name)" by (cases r)
  show ?case
  proof (cases "PidExists i")
    case True
    then show ?thesis using Cons.IH by (simp add: r seedRow_live stale_rows_def)
  next
    case False
    then show ?thesis using Cons.IH by (simp add: r seedRow_stale stale_rows_def)
  qed
qed

lemma seed_fold_ledger:
  "runningProcs (fst (fold (seedRow PidExists now) (map Some rs) (s, q))) =
     runningProcs s ++ map_of (rev (map lower_row (live_rows PidExists rs)))"
proof (induction rs arbitrary: s q)
  case Nil
  show ?case by (simp add: live_rows_def)
next
  case (Cons r rs)
  obtain i name where r: "r = (i, name)" by (cases r)
  show ?case
  proof (cases "PidExists i")
    case True
    define s1 where "s1 = s\<lparr>runningProcs := (runningProcs s)(i \<mapsto> ToLower name),
        runningAppCounts := (runningAppCounts s)(ToLower name \<mapsto> count_of s (ToLower name) + 1)\<rparr>"
    have step: "fold (seedRow PidExists now) (map Some (r # rs)) (s, q) =
                fold (seedRow PidExists now) (map Some rs) (s1, q)"
      using True by (simp add: r seedRow_live s1_def)
    have led: "runningProcs s1 = (runningProcs s)(i \<mapsto> ToLower name)"
      by (simp add: s1_def)
    have live: "live_rows PidExists (r # rs) = r # live_rows PidExists rs"
      using True by (simp add: live_rows_def r)
    have "runningProcs s ++ map_of (rev (map lower_row (live_rows PidExists (r # rs)))) =
          (runningProcs s)(i \<mapsto> ToLower name) ++ map_of (rev (map lower_row (live_rows PidExists rs)))"
      unfolding live using map_add_map_of_snoc [of "runningProcs s" _ i "ToLower name"]
      by (simp add: lower_row_def r del: map_of_append)
    then show ?thesis using Cons.IH [of s1 q] by (simp only: step led)
  next
    case False
    then show ?thesis using Cons.IH by (simp add: r seedRow_stale live_rows_def)
  qed
qed

lemma seed_fold_counts:
  "count_of (fst (fold (seedRow PidExists now) (map Some rs) (s, q))) n =
     count_of s n + int (length (filter (\<lambda>r. ToLower (snd r) = n) (live_rows PidExists rs)))"
proof (induction rs arbitrary: s q)
  case Nil
  show ?case by (simp add: live_rows_def)
next
  case (Cons r rs)
  obtain i name where r: "r = (i, name)" by (cases r)
  show ?case
  proof (cases "PidExists i")
    case True
    then show ?thesis using Cons.IH
      by (simp add: r seedRow_live live_rows_def) (simp add: count_of_def)
  next
    case False
    then show ?thesis using Cons.IH by (simp add: r seedRow_stale live_rows_def)
  qed
qed

lemma open_query_selected: "open_query db = Some (map Some (selected db))"
  by (simp add: open_query_def selected_def comp_def)

text \<open>
  C9. At startup, when the query for the rows with a null \<open>end_time\<close> and the scan of each
  row succeed, the ledger is seeded from exactly those rows: the rows whose process
  still exists become the ledger (a later row wins on an identifier that occurs twice),
  each adds one to the count of its lowercase name, and for each row whose process no
  longer exists one end-write with the current timestamp is enqueued, in the order of
  the rows, and nothing is added to the ledger.
\<close>

theorem seeding_from_open_rows:
  "runningProcs (state (startup PidExists now (open_query db))) =
     map_of (rev (map lower_row (live_rows PidExists (selected db)))) \<and>
   (\<forall>n. count_of (state (startup PidExists now (open_query db))) n =
     int (length (filter (\<lambda>r. ToLower (snd r) = n) (live_rows PidExists (selected db))))) \<and>
   enqueued (startup PidExists now (open_query db)) =
     map (\<lambda>r. EndWrite now (fst r)) (stale_rows PidExists (selected db))"
proof -
  let ?c = "fold (seedRow PidExists now) (map Some (selected db)) (empty_state, [])"
  have st: "state (startup PidExists now (open_query db)) = fst ?c"
    and en: "enqueued (startup PidExists now (open_query db)) = snd ?c"
    by (simp_all add: startup_def initializeRunningProcs_def open_query_selected split_beta)
  have "runningProcs (fst ?c) = map_of (rev (map lower_row (live_rows PidExists (selected db))))"
    by (simp add: seed_fold_ledger empty_state_def)
  moreover have "\<forall>n. count_of (fst ?c) n =
     int (length (filter (\<lambda>r. ToLower (snd r) = n) (live_rows PidExists (selected db))))"
    by (simp add: seed_fold_counts) (simp add: count_of_def empty_state_def)
  moreover have "snd ?c = map (\<lambda>r. EndWrite now (fst r)) (stale_rows PidExists (selected db))"
    by (simp add: seed_fold_writes)
  ultimately show ?thesis by (simp add: st en)
qed


theorem seeding_from_open_rows_witness:
  "runningProcs (state (startup (\<lambda>i. i = 1) 7 (open_query sample_db))) =
     map_of (rev (map lower_row (live_rows (\<lambda>i. i = 1) (selected sample_db)))) \<and>
   runningProcs (state (startup (\<lambda>i. i = 1) 7 (open_query sample_db))) 1 = Some ''editor.exe'' \<and>
   runningProcs (state (startup (\<lambda>i. i = 1) 7 (open_query sample_db))) 2 = None \<and>
   count_of (state (startup (\<lambda>i. i = 1) 7 (open_query sample_db))) ''editor.exe'' = 1 \<and>
   enqueued (startup (\<lambda>i. i = 1) 7 (open_query sample_db)) = [EndWrite 7 2]"
  using seeding_from_open_rows [of "\<lambda>i. i = 1" 7 sample_db]
  by (simp add: selected_def open_rows_def sample_db_def live_rows_def stale_rows_def
      lower_row_def ToLower_def lower_char_def)

section \<open>A further instance of a logged application\<close>

lemma is_end_not_insert: "is_end w \<Longrightarrow> \<not> is_insert w"
  by (cases w) simp_all

lemma logEndedProcess_absent:
  "runningProcs s j = None \<Longrightarrow> runningProcs (fst (logEndedProcess cur now i (s, q))) j = None"
  by (simp add: logEndedProcess_def Let_def split: option.splits)

lemma logEndedProcess_count_zero:
  "count_of s n = 0 \<Longrightarrow> count_of (fst (logEndedProcess cur now i (s, q))) n = 0"
  by (auto simp: logEndedProcess_def Let_def count_of_def split: option.splits)

lemma logEndedProcesses_absent:
  "runningProcs s j = None \<Longrightarrow> runningProcs (fst (logEndedProcesses cur now order (s, q))) j = None"
proof (induction order arbitrary: s q)
  case Nil
  then show ?case by (simp add: logEndedProcesses_Nil)
next
  case (Cons i order)
  obtain s1 q1 where c1: "logEndedProcess cur now i (s, q) = (s1, q1)"
    by (cases "logEndedProcess cur now i (s, q)")
  have "runningProcs s1 j = None"
    using logEndedProcess_absent [OF Cons.prems, of cur now i q] c1 by simp
  then show ?case using Cons.IH [of s1 q1] c1 by (simp add: logEndedProcesses_Cons)
qed

lemma logEndedProcesses_count_zero:
  "count_of s n = 0 \<Longrightarrow> count_of (fst (logEndedProcesses cur now order (s, q))) n = 0"
proof (induction order arbitrary: s q)
  case Nil
  then show ?case by (simp add: logEndedProcesses_Nil)
next
  case (Cons i order)
  obtain s1 q1 where c1: "logEndedProcess cur now i (s, q) = (s1, q1)"
    by (cases "logEndedProcess cur now i (s, q)")
  have "count_of s1 n = 0"
    using logEndedProcess_count_zero [OF Cons.prems, of cur now i q] c1 by simp
  then show ?case using Cons.IH [of s1 q1] c1 by (simp add: logEndedProcesses_Cons)
qed

lemma logNewProcess_dedup:
  assumes "runningProcs s (Pid p) = None" "Name p = Some name" "name \<noteq> []"
    "Exe p = Some exePath" "\<not> ShouldExclude F exePath p" "0 < count_of s (ToLower name)"
  shows "logNewProcess F now p (s, q) =
     (s\<lparr>runningProcs := (runningProcs s)(Pid p \<mapsto> ToLower name),
        runningAppCounts := (runningAppCounts s)(ToLower name \<mapsto> count_of s (ToLower name) + 1)\<rparr>, q)"
  using assms by (simp add: logNewProcess_def Let_def)

lemma logNewProcess_first:
  assumes "runningProcs s (Pid p) = None" "qualifies F p" "count_of s (ToLower (name_of p)) \<le> 0"
  shows "logNewProcess F now p (s, q) =
     (s\<lparr>runningProcs := (runningProcs s)(Pid p \<mapsto> ToLower (name_of p)),
        runningAppCounts := (runningAppCounts s)(ToLower (name_of p) \<mapsto> count_of s (ToLower (name_of p)) + 1)\<rparr>,
      q @ [insert_of now p])"
  using assms
  by (auto simp: logNewProcess_def Let_def qualifies_def name_of_def exe_of_def insert_of_def
      split: option.splits)

lemma editor_qualifies: "qualifies windows_rules (editor i)"
  using editor_not_excluded [of i] editor_tracked [of i]
  by (simp add: qualifies_def editor_fields)

lemma editor_name_of: "name_of (editor i) = ''Editor.exe''"
  by (simp add: name_of_def editor_fields)

text \<open>
  C5. A process that is not in the ledger, whose name and executable path are read,
  that the rules do not exclude and whose lowercase name has a count above zero is
  added to the ledger under that name, the count goes up by one, and nothing is
  enqueued. And when a tick first lists two processes of one lowercase name that was
  not tracked, the first of which qualifies, the tick enqueues exactly one insert, for
  the first, both are in the ledger and the count of the name ends at 2.
\<close>

theorem dedup_additional_instance:
  "(runningProcs s (Pid p) = None \<and> Name p = Some name \<and> name \<noteq> [] \<and> Exe p = Some exePath \<and>
    \<not> ShouldExclude F exePath p \<and> 0 < count_of s (ToLower name) \<longrightarrow>
    logNewProcess F now p (s, q) =
      (s\<lparr>runningProcs := (runningProcs s)(Pid p \<mapsto> ToLower name),
         runningAppCounts :=
           (runningAppCounts s)(ToLower name \<mapsto> count_of s (ToLower name) + 1)\<rparr>, q)) \<and>
   (qualifies F p1 \<and> Name p2 = Some name2 \<and> name2 \<noteq> [] \<and> Exe p2 = Some exe2 \<and>
    \<not> ShouldExclude F exe2 p2 \<and> ToLower (name_of p1) = ToLower name2 \<and> Pid p1 \<noteq> Pid p2 \<and>
    runningProcs (state m) (Pid p1) = None \<and> runningProcs (state m) (Pid p2) = None \<and>
    count_of (state m) (ToLower name2) = 0 \<longrightarrow>
    filter is_insert (drop (length (enqueued m))
        (enqueued (monitor_step F m (Tick [p1, p2] order now)))) = [insert_of now p1] \<and>
    count_of (state (monitor_step F m (Tick [p1, p2] order now))) (ToLower name2) = 2 \<and>
    runningProcs (state (monitor_step F m (Tick [p1, p2] order now))) (Pid p1) =
      Some (ToLower name2) \<and>
    runningProcs (state (monitor_step F m (Tick [p1, p2] order now))) (Pid p2) =
      Some (ToLower name2))"
proof (intro conjI impI)
  assume "runningProcs s (Pid p) = None \<and> Name p = Some name \<and> name \<noteq> [] \<and>
    Exe p = Some exePath \<and> \<not> ShouldExclude F exePath p \<and> 0 < count_of s (ToLower name)"
  then show "logNewProcess F now p (s, q) =
      (s\<lparr>runningProcs := (runningProcs s)(Pid p \<mapsto> ToLower name),
         runningAppCounts :=
           (runningAppCounts s)(ToLower name \<mapsto> count_of s (ToLower name) + 1)\<rparr>, q)"
    by (simp add: logNewProcess_dedup)
next
  assume a: "qualifies F p1 \<and> Name p2 = Some name2 \<and> name2 \<noteq> [] \<and> Exe p2 = Some exe2 \<and>
    \<not> ShouldExclude F exe2 p2 \<and> ToLower (name_of p1) = ToLower name2 \<and> Pid p1 \<noteq> Pid p2 \<and>
    runningProcs (state m) (Pid p1) = None \<and> runningProcs (state m) (Pid p2) = None \<and>
    count_of (state m) (ToLower name2) = 0"
  let ?n = "ToLower name2"
  obtain s1 q1 where c1:
    "logEndedProcesses (currentPids [p1, p2]) now order (state m, enqueued m) = (s1, q1)"
    by (cases "logEndedProcesses (currentPids [p1, p2]) now order (state m, enqueued m)")
  from logEndedProcesses_trace [of "currentPids [p1, p2]" now order "state m" "enqueued m"] c1
  obtain ends where e: "q1 = enqueued m @ ends" "\<forall>w\<in>set ends. is_end w"
    by auto
  have abs1: "runningProcs s1 (Pid p1) = None" and abs2: "runningProcs s1 (Pid p2) = None"
    using a c1 logEndedProcesses_absent [of "state m" _ "currentPids [p1, p2]" now order "enqueued m"]
    by auto
  have cnt: "count_of s1 ?n = 0"
    using a c1 logEndedProcesses_count_zero [of "state m" ?n "currentPids [p1, p2]" now order "enqueued m"]
    by auto
  define s2 where "s2 = s1\<lparr>runningProcs := (runningProcs s1)(Pid p1 \<mapsto> ?n),
        runningAppCounts := (runningAppCounts s1)(?n \<mapsto> 1)\<rparr>"
  have st1: "logNewProcess F now p1 (s1, q1) = (s2, q1 @ [insert_of now p1])"
    using logNewProcess_first [of s1 p1 F now q1] abs1 a cnt by (simp add: s2_def)
  have s2p: "runningProcs s2 (Pid p2) = None" "count_of s2 ?n = 1"
    using abs2 a by (auto simp: s2_def count_of_def)
  define s3 where "s3 = s2\<lparr>runningProcs := (runningProcs s2)(Pid p2 \<mapsto> ?n),
        runningAppCounts := (runningAppCounts s2)(?n \<mapsto> 2)\<rparr>"
  have st2: "logNewProcess F now p2 (s2, q1 @ [insert_of now p1]) = (s3, q1 @ [insert_of now p1])"
    using logNewProcess_dedup [of s2 p2 name2 exe2 F now "q1 @ [insert_of now p1]"] s2p a
    by (simp add: s3_def)
  have res: "monitor_step F m (Tick [p1, p2] order now) =
      m\<lparr>state := s3, enqueued := enqueued m @ ends @ [insert_of now p1]\<rparr>"
    using c1 st1 st2 e(1) by (simp add: logNewProcesses_Cons logNewProcesses_Nil)
  have fl: "filter is_insert ends = []"
    using e(2) by (auto simp: filter_empty_conv dest: is_end_not_insert)
  show "filter is_insert (drop (length (enqueued m))
        (enqueued (monitor_step F m (Tick [p1, p2] order now)))) = [insert_of now p1]"
    unfolding res by (simp add: fl insert_of_def)
  show "count_of (state (monitor_step F m (Tick [p1, p2] order now))) ?n = 2"
    unfolding res by (simp add: s3_def count_of_def)
  show "runningProcs (state (monitor_step F m (Tick [p1, p2] order now))) (Pid p1) = Some ?n"
    unfolding res using a by (simp add: s3_def s2_def)
  show "runningProcs (state (monitor_step F m (Tick [p1, p2] order now))) (Pid p2) = Some ?n"
    unfolding res by (simp add: s3_def)
qed

theorem dedup_additional_instance_witness:
  "logNewProcess windows_rules 9 (editor 2)
     (\<lparr>runningProcs = [1 \<mapsto> ''editor.exe''], runningAppCounts = [''editor.exe'' \<mapsto> 1]\<rparr>, []) =
     (\<lparr>runningProcs = [1 \<mapsto> ''editor.exe'', 2 \<mapsto> ''editor.exe''],
       runningAppCounts = [''editor.exe'' \<mapsto> 2]\<rparr>, []) \<and>
   filter is_insert (drop (length (enqueued (startup (\<lambda>i. True) 0 (Some []))))
     (enqueued (monitor_step windows_rules (startup (\<lambda>i. True) 0 (Some []))
        (Tick [editor 1, editor 2] [] 9)))) = [insert_of 9 (editor 1)] \<and>
   count_of (state (monitor_step windows_rules (startup (\<lambda>i. True) 0 (Some []))
        (Tick [editor 1, editor 2] [] 9))) ''editor.exe'' = 2"
  using dedup_additional_instance [where s = "\<lparr>runningProcs = [1 \<mapsto> ''editor.exe''],
        runningAppCounts = [''editor.exe'' \<mapsto> 1]\<rparr>"
      and p = "editor 2" and name = "''Editor.exe''"
      and exePath = "''C:'' @ bsl # ''Apps'' @ bsl # ''Editor.exe''"
      and F = windows_rules and now = 9 and q = "[]"
      and ?p1.0 = "editor 1" and ?p2.0 = "editor 2" and ?name2.0 = "''Editor.exe''"
      and ?exe2.0 = "''C:'' @ bsl # ''Apps'' @ bsl # ''Editor.exe''"
      and m = "startup (\<lambda>i. True) 0 (Some [])" and order = "[]"]
    editor_not_excluded [of 2] editor_qualifies [of 1]
  by (simp add: editor_fields editor_name_of ToLower_Editor count_of_def startup_def
      initializeRunningProcs_def empty_state_def)

section \<open>Processes under the system directories\<close>

lemma under_system_dir_excluded:
  "under_system_dir exePath \<Longrightarrow> ShouldExclude windows_rules exePath p"
  by (simp add: under_system_dir_def windows_rules_def ShouldExclude_windows_def Let_def)

lemma seedRow_no_insert:
  "\<forall>w\<in>set q. is_insert w \<longrightarrow> write_pid w \<noteq> x \<Longrightarrow>
   \<forall>w\<in>set (snd (seedRow PidExists now row (s, q))). is_insert w \<longrightarrow> write_pid w \<noteq> x"
  by (auto simp: seedRow_def Let_def split: option.splits)

lemma seed_fold_no_insert:
  "\<forall>w\<in>set q. is_insert w \<longrightarrow> write_pid w \<noteq> x \<Longrightarrow>
   \<forall>w\<in>set (snd (fold (seedRow PidExists now) rs (s, q))). is_insert w \<longrightarrow> write_pid w \<noteq> x"
proof (induction rs arbitrary: s q)
  case Nil
  then show ?case by simp
next
  case (Cons r rs)
  obtain s1 q1 where c1: "seedRow PidExists now r (s, q) = (s1, q1)"
    by (cases "seedRow PidExists now r (s, q)")
  have "\<forall>w\<in>set q1. is_insert w \<longrightarrow> write_pid w \<noteq> x"
    using seedRow_no_insert [OF Cons.prems, of PidExists now r s] c1 by simp
  then show ?case using Cons.IH [of q1 s1] c1 by simp
qed

lemma startup_no_insert:
  "\<forall>w\<in>set (enqueued (startup PidExists now rows)). is_insert w \<longrightarrow> write_pid w \<noteq> x"
proof (cases rows)
  case None
  then show ?thesis by (simp add: startup_def initializeRunningProcs_def)
next
  case (Some rs)
  have "\<forall>w\<in>set (snd (fold (seedRow PidExists now) rs (empty_state, []))).
          is_insert w \<longrightarrow> write_pid w \<noteq> x"
    by (rule seed_fold_no_insert) simp
  then show ?thesis using Some by (simp add: startup_def initializeRunningProcs_def split_beta)
qed

lemma logEndedProcesses_no_insert:
  assumes "\<forall>w\<in>set q. is_insert w \<longrightarrow> write_pid w \<noteq> x"
  shows "\<forall>w\<in>set (snd (logEndedProcesses cur now order (s, q))). is_insert w \<longrightarrow> write_pid w \<noteq> x"
proof -
  from logEndedProcesses_trace [of cur now order s q]
  obtain ends where e: "snd (logEndedProcesses cur now order (s, q)) = q @ ends"
    "\<forall>w\<in>set ends. is_end w" by auto
  show ?thesis using assms e by (auto dest: is_end_not_insert)
qed

lemma logNewProcess_no_insert:
  assumes "\<forall>w\<in>set q. is_insert w \<longrightarrow> write_pid w \<noteq> x"
    and "Pid p = x \<longrightarrow> (case Exe p of None \<Rightarrow> True | Some exePath \<Rightarrow> under_system_dir exePath)"
  shows "\<forall>w\<in>set (snd (logNewProcess windows_rules now p (s, q))).
           is_insert w \<longrightarrow> write_pid w \<noteq> x"
  using assms under_system_dir_excluded [of _ p]
  by (auto simp: logNewProcess_def Let_def split: option.splits)

lemma logNewProcesses_no_insert:
  assumes "\<forall>w\<in>set q. is_insert w \<longrightarrow> write_pid w \<noteq> x"
    and "\<forall>p\<in>set procs. Pid p = x \<longrightarrow>
           (case Exe p of None \<Rightarrow> True | Some exePath \<Rightarrow> under_system_dir exePath)"
  shows "\<forall>w\<in>set (snd (logNewProcesses windows_rules now procs (s, q))).
           is_insert w \<longrightarrow> write_pid w \<noteq> x"
  using assms
proof (induction procs arbitrary: s q)
  case Nil
  then show ?case by (simp add: logNewProcesses_Nil)
next
  case (Cons p procs)
  obtain s1 q1 where c1: "logNewProcess windows_rules now p (s, q) = (s1, q1)"
    by (cases "logNewProcess windows_rules now p (s, q)")
  have "\<forall>w\<in>set q1. is_insert w \<longrightarrow> write_pid w \<noteq> x"
    using logNewProcess_no_insert [of q x p now s] Cons.prems c1 by simp
  then show ?case using Cons.IH [of q1 s1] Cons.prems(2) c1
    by (simp add: logNewProcesses_Cons)
qed

lemma monitor_step_no_insert:
  assumes "\<forall>w\<in>set (enqueued m). is_insert w \<longrightarrow> write_pid w \<noteq> x"
    and "\<forall>p\<in>set (tick_procs e). Pid p = x \<longrightarrow>
           (case Exe p of None \<Rightarrow> True | Some exePath \<Rightarrow> under_system_dir exePath)"
  shows "\<forall>w\<in>set (enqueued (monitor_step windows_rules m e)). is_insert w \<longrightarrow> write_pid w \<noteq> x"
proof (cases e)
  case (Tick procs order now)
  obtain s1 q1 where c1:
    "logEndedProcesses (currentPids procs) now order (state m, enqueued m) = (s1, q1)"
    by (cases "logEndedProcesses (currentPids procs) now order (state m, enqueued m)")
  have q1: "\<forall>w\<in>set q1. is_insert w \<longrightarrow> write_pid w \<noteq> x"
    using logEndedProcesses_no_insert [OF assms(1), of "currentPids procs" now order "state m"] c1
    by simp
  have "\<forall>w\<in>set (snd (logNewProcesses windows_rules now procs (s1, q1))).
           is_insert w \<longrightarrow> write_pid w \<noteq> x"
    using logNewProcesses_no_insert [OF q1, of procs now s1] assms(2) Tick by simp
  then show ?thesis using Tick c1 by (simp add: split_beta)
next
  case TickFailed
  then show ?thesis using assms(1) by simp
next
  case Reset
  then show ?thesis using assms(1) by simp
qed

lemma run_no_insert:
  assumes "\<forall>w\<in>set (enqueued m). is_insert w \<longrightarrow> write_pid w \<noteq> x"
    and "\<forall>p\<in>set (observed evs). Pid p = x \<longrightarrow>
           (case Exe p of None \<Rightarrow> True | Some exePath \<Rightarrow> under_system_dir exePath)"
  shows "\<forall>w\<in>set (enqueued (foldl (monitor_step windows_rules) m evs)).
           is_insert w \<longrightarrow> write_pid w \<noteq> x"
  using assms
proof (induction evs arbitrary: m)
  case Nil
  then show ?case by simp
next
  case (Cons e evs)
  have "\<forall>w\<in>set (enqueued (monitor_step windows_rules m e)). is_insert w \<longrightarrow> write_pid w \<noteq> x"
    using monitor_step_no_insert [of m x e] Cons.prems by (simp add: observed_def)
  then show ?case using Cons.IH [of "monitor_step windows_rules m e"] Cons.prems(2)
    by (simp add: observed_def)
qed

lemma svchost_fields:
  "Pid (svchost i) = i" "Name (svchost i) = Some ''svchost.exe''"
  "Exe (svchost i) = Some (''C:'' @ bsl # ''Windows'' @ bsl # ''System32'' @ bsl # ''svchost.exe'')"
  "HasVisibleWindow (svchost i)"
  by (simp_all add: svchost_def)

lemma svchost_under_system_dir:
  "under_system_dir (''C:'' @ bsl # ''Windows'' @ bsl # ''System32'' @ bsl # ''svchost.exe'')"
  by (simp add: under_system_dir_def system32_dir_def ToLower_def lower_char_def)

lemma logNew_svchost:
  "logNewProcess windows_rules now (svchost i) (s, q) =
    (if runningProcs s i \<noteq> None then (s, q)
     else (s\<lparr>runningProcs := (runningProcs s)(i \<mapsto> ''svchost.exe'')\<rparr>, q))"
  using under_system_dir_excluded [OF svchost_under_system_dir, of "svchost i"]
  by (simp add: logNewProcess_def Let_def svchost_fields ToLower_def lower_char_def
      del: append.simps)

text \<open>
  C7. Under the Windows rules, take an identifier such that every process listed
  under it, in any tick of the run, has an executable path that in lower case
  contains \<open>system32_dir\<close> or \<open>syswow64_dir\<close>, the directories \<open>system32\<close> and
  \<open>syswow64\<close> of \<open>windows\<close> between backslashes (or a path that cannot be read).
  Then no insert for that identifier is ever enqueued, after any number of ticks and
  resets and whatever the window query answers.
\<close>

theorem system_dir_never_inserted:
  assumes "\<forall>p\<in>set (observed evs). Pid p = x \<longrightarrow>
             (case Exe p of None \<Rightarrow> True | Some exePath \<Rightarrow> under_system_dir exePath)"
  shows "\<forall>w\<in>set (enqueued (StartProcessEventLogger windows_rules PidExists now rows evs)).
           is_insert w \<longrightarrow> write_pid w \<noteq> x"
  unfolding StartProcessEventLogger_def
  using run_no_insert [OF startup_no_insert assms] .

theorem system_dir_never_inserted_witness:
  "under_system_dir (exe_of (svchost 4)) \<and> HasVisibleWindow (svchost 4) \<and>
   filter (\<lambda>w. is_insert w \<and> write_pid w = 4)
     (enqueued (StartProcessEventLogger windows_rules (\<lambda>i. True) 0 (Some [])
        [Tick [svchost 4, editor 1] [] 5, Tick [svchost 4, editor 1] [4, 1] 6])) = [] \<and>
   enqueued (StartProcessEventLogger windows_rules (\<lambda>i. True) 0 (Some [])
        [Tick [svchost 4, editor 1] [] 5, Tick [svchost 4, editor 1] [4, 1] 6]) =
     [insert_of 5 (editor 1)]"
proof -
  have h: "\<forall>p\<in>set (observed [Tick [svchost 4, editor 1] [] 5, Tick [svchost 4, editor 1] [4, 1] 6]).
      Pid p = 4 \<longrightarrow> (case Exe p of None \<Rightarrow> True | Some exePath \<Rightarrow> under_system_dir exePath)"
    using svchost_under_system_dir by (simp add: observed_def svchost_fields editor_fields)
  have "filter (\<lambda>w. is_insert w \<and> write_pid w = 4)
     (enqueued (StartProcessEventLogger windows_rules (\<lambda>i. True) 0 (Some [])
        [Tick [svchost 4, editor 1] [] 5, Tick [svchost 4, editor 1] [4, 1] 6])) = []"
    using system_dir_never_inserted [OF h, of "\<lambda>i. True" 0 "Some []"]
    by (simp only: filter_empty_conv) blast
  moreover have "enqueued (StartProcessEventLogger windows_rules (\<lambda>i. True) 0 (Some [])
        [Tick [svchost 4, editor 1] [] 5, Tick [svchost 4, editor 1] [4, 1] 6]) =
     [insert_of 5 (editor 1)]"
    by (simp add: run_defs logNew_editor logNew_svchost editor_fields svchost_fields)
  ultimately show ?thesis
    using svchost_under_system_dir by (simp add: exe_of_def svchost_fields)
qed

section \<open>The reset signal\<close>

lemma logEndedProcesses_empty:
  "runningProcs s = Map.empty \<Longrightarrow> logEndedProcesses cur now order (s, q) = (s, q)"
  by (induction order) (simp_all add: logEndedProcesses_def logEndedProcess_def)

lemma logNewProcess_unqualified:
  assumes "\<not> qualifies F p"
  shows "snd (logNewProcess F now p (s, q)) = q"
    and "runningProcs s j = None \<Longrightarrow> j \<noteq> Pid p \<Longrightarrow>
         runningProcs (fst (logNewProcess F now p (s, q))) j = None"
    and "count_of s n \<le> 0 \<Longrightarrow> count_of (fst (logNewProcess F now p (s, q))) n \<le> 0"
  using assms
  by (auto simp: logNewProcess_def Let_def qualifies_def count_of_def split: option.splits)

lemma logNewProcesses_fresh:
  assumes "\<forall>p\<in>set procs. runningProcs s (Pid p) = None"
    and "distinct (map Pid procs)"
    and "\<forall>p\<in>set procs. qualifies F p \<longrightarrow> count_of s (ToLower (name_of p)) \<le> 0"
    and "distinct (map (\<lambda>p. ToLower (name_of p)) (filter (qualifies F) procs))"
  shows "snd (logNewProcesses F now procs (s, q)) = q @ map (insert_of now) (filter (qualifies F) procs)"
  using assms
proof (induction procs arbitrary: s q)
  case Nil
  show ?case by (simp add: logNewProcesses_Nil)
next
  case (Cons p procs)
  obtain s1 q1 where c1: "logNewProcess F now p (s, q) = (s1, q1)"
    by (cases "logNewProcess F now p (s, q)")
  have abs: "runningProcs s (Pid p) = None" using Cons.prems(1) by simp
  show ?case
  proof (cases "qualifies F p")
    case True
    have cnt: "count_of s (ToLower (name_of p)) \<le> 0" using Cons.prems(3) True by simp
    have s1: "s1 = s\<lparr>runningProcs := (runningProcs s)(Pid p \<mapsto> ToLower (name_of p)),
        runningAppCounts := (runningAppCounts s)(ToLower (name_of p) \<mapsto>
           count_of s (ToLower (name_of p)) + 1)\<rparr>"
      and q1: "q1 = q @ [insert_of now p]"
      using logNewProcess_first [OF abs True cnt, of now q] c1 by simp_all
    have a1: "\<forall>p'\<in>set procs. runningProcs s1 (Pid p') = None"
      using Cons.prems(1,2) by (auto simp: s1 image_iff)
    have a3: "\<forall>p'\<in>set procs. qualifies F p' \<longrightarrow> count_of s1 (ToLower (name_of p')) \<le> 0"
    proof (intro ballI impI)
      fix p' assume p': "p' \<in> set procs" "qualifies F p'"
      then have "ToLower (name_of p') \<noteq> ToLower (name_of p)"
        using Cons.prems(4) True by (auto simp: image_iff)
      then show "count_of s1 (ToLower (name_of p')) \<le> 0"
        using Cons.prems(3) p' by (simp add: s1 count_of_def)
    qed
    have "snd (logNewProcesses F now procs (s1, q1)) =
            q1 @ map (insert_of now) (filter (qualifies F) procs)"
      using Cons.IH [OF a1 _ a3] Cons.prems(2,4) True by simp
    then show ?thesis using c1 True by (simp add: logNewProcesses_Cons q1)
  next
    case False
    have q1: "q1 = q" using logNewProcess_unqualified(1) [OF False, of now s q] c1 by simp
    have a1: "\<forall>p'\<in>set procs. runningProcs s1 (Pid p') = None"
    proof
      fix p' assume p': "p' \<in> set procs"
      then have "Pid p' \<noteq> Pid p" using Cons.prems(2) by (auto simp: image_iff)
      moreover have "runningProcs s (Pid p') = None" using Cons.prems(1) p' by simp
      ultimately show "runningProcs s1 (Pid p') = None"
        using logNewProcess_unqualified(2) [OF False, of s "Pid p'" now q] c1 by simp
    qed
    have a3: "\<forall>p'\<in>set procs. qualifies F p' \<longrightarrow> count_of s1 (ToLower (name_of p')) \<le> 0"
    proof (intro ballI impI)
      fix p' assume p': "p' \<in> set procs" "qualifies F p'"
      then have "count_of s (ToLower (name_of p')) \<le> 0" using Cons.prems(3) by simp
      then show "count_of s1 (ToLower (name_of p')) \<le> 0"
        using logNewProcess_unqualified(3) [OF False, of s _ now q] c1 by simp
    qed
    have "snd (logNewProcesses F now procs (s1, q1)) =
            q1 @ map (insert_of now) (filter (qualifies F) procs)"
      using Cons.IH [OF a1 _ a3] Cons.prems(2,4) False by simp
    then show ?thesis using c1 False by (simp add: logNewProcesses_Cons q1)
  qed
qed

lemma tick_after_reset:
  assumes "distinct (map Pid procs)"
    and "distinct (map (\<lambda>p. ToLower (name_of p)) (filter (qualifies F) procs))"
  shows "enqueued (monitor_step F (monitor_step F m Reset) (Tick procs order now)) =
           enqueued m @ map (insert_of now) (filter (qualifies F) procs)"
proof -
  have e: "logEndedProcesses (currentPids procs) now order (empty_state, enqueued m) =
           (empty_state, enqueued m)"
    by (rule logEndedProcesses_empty) (simp add: empty_state_def)
  have "snd (logNewProcesses F now procs (empty_state, enqueued m)) =
          enqueued m @ map (insert_of now) (filter (qualifies F) procs)"
    using assms by (intro logNewProcesses_fresh) (simp_all add: empty_state_def count_of_def)
  then show ?thesis by (simp add: e split_beta)
qed

lemma ToLower_Player: "ToLower ''Player.exe'' = ''player.exe''"
  by (simp add: ToLower_def lower_char_def)

lemma player_fields:
  "Pid (player i) = i" "Name (player i) = Some ''Player.exe''"
  "Exe (player i) = Some (''C:'' @ bsl # ''Apps'' @ bsl # ''Player.exe'')"
  by (simp_all add: player_def)

lemma player_not_excluded:
  "\<not> ShouldExclude windows_rules (''C:'' @ bsl # ''Apps'' @ bsl # ''Player.exe'') (player i)"
  by (simp add: windows_rules_def ShouldExclude_windows_def ToLower_def lower_char_def
      HasSuffix_def system32_dir_def syswow64_dir_def player_def windows_product_def
      SystemRID_def)

lemma player_tracked:
  "ShouldTrack windows_rules (''C:'' @ bsl # ''Apps'' @ bsl # ''Player.exe'') (player i)"
  by (simp add: windows_rules_def ShouldTrack_windows_def ToLower_def lower_char_def
      player_def parent_is_explorer_def EqualFold_def)

lemma player_qualifies: "qualifies windows_rules (player i)"
  using player_not_excluded [of i] player_tracked [of i]
  by (simp add: qualifies_def player_fields)

lemma player_name_of: "name_of (player i) = ''Player.exe''"
  by (simp add: name_of_def player_fields)

lemma svchost_not_qualifies: "\<not> qualifies windows_rules (svchost i)"
  using under_system_dir_excluded [OF svchost_under_system_dir, of "svchost i"]
  by (simp add: qualifies_def svchost_fields)

lemma logNew_player:
  "logNewProcess windows_rules now (player i) (s, q) =
    (if runningProcs s i \<noteq> None then (s, q)
     else (s\<lparr>runningProcs := (runningProcs s)(i \<mapsto> ''player.exe''),
             runningAppCounts :=
               (runningAppCounts s)(''player.exe'' \<mapsto> count_of s ''player.exe'' + 1)\<rparr>,
           if count_of s ''player.exe'' > 0 then q else q @ [insert_of now (player i)]))"
  using player_not_excluded [of i] player_tracked [of i]
  by (simp add: logNewProcess_def ToLower_Player Let_def insert_of_def name_of_def exe_of_def
      player_fields del: append.simps)

lemmas sample_evals =
  logNew_editor logNew_player logNew_svchost editor_fields player_fields svchost_fields

text \<open>
  C6, as the code has it. Handling a reset signal replaces the ledger and the counts
  by empty maps and prints one log line; it enqueues nothing and leaves the consumer,
  and with it the store and its open rows, as they were. On the next tick every listed
  process that qualifies is new, and when the qualifying processes have pairwise
  distinct lowercase names (and the list has no identifier twice) the tick enqueues
  one insert for each of them, in the order of the list, and nothing else.
\<close>

theorem reset_clears_ledger_only:
  "logger (system_step F Exec y (MonitorTurn Reset)) =
     (logger y)\<lparr>state := empty_state,
       appLog := appLog (logger y) @
         [''[Logger] Reset signal received. Clearing in-memory state.'']\<rparr> \<and>
   enqueued (logger (system_step F Exec y (MonitorTurn Reset))) = enqueued (logger y) \<and>
   consumer (system_step F Exec y (MonitorTurn Reset)) = consumer y \<and>
   (distinct (map Pid procs) \<and>
    distinct (map (\<lambda>p. ToLower (name_of p)) (filter (qualifies F) procs)) \<longrightarrow>
    enqueued (logger (system_step F Exec (system_step F Exec y (MonitorTurn Reset))
                (MonitorTurn (Tick procs order now)))) =
      enqueued (logger y) @ map (insert_of now) (filter (qualifies F) procs))"
  using tick_after_reset [of procs F "logger y" order now] by simp

theorem reset_clears_ledger_only_witness:
  "distinct (map Pid [editor 1, player 2, svchost 4]) \<and>
   distinct (map (\<lambda>p. ToLower (name_of p))
      (filter (qualifies windows_rules) [editor 1, player 2, svchost 4])) \<and>
   enqueued (logger (system_step windows_rules (\<lambda>db req. (exec_write req db, None))
     (system_step windows_rules (\<lambda>db req. (exec_write req db, None))
        \<lparr>logger = StartProcessEventLogger windows_rules (\<lambda>i. True) 0 (Some [])
                   [Tick [editor 1, player 2, svchost 4] [] 5],
         consumer = \<lparr>store = [], errLog = [], calls = []\<rparr>\<rparr>
        (MonitorTurn Reset))
     (MonitorTurn (Tick [editor 1, player 2, svchost 4] [] 6)))) =
   [insert_of 5 (editor 1), insert_of 5 (player 2), insert_of 6 (editor 1), insert_of 6 (player 2)]"
  using reset_clears_ledger_only [where F = windows_rules
      and Exec = "\<lambda>db req. (exec_write req db, None)"
      and y = "\<lparr>logger = StartProcessEventLogger windows_rules (\<lambda>i. True) 0 (Some [])
                   [Tick [editor 1, player 2, svchost 4] [] 5],
         consumer = \<lparr>store = [], errLog = [], calls = []\<rparr>\<rparr>"
      and procs = "[editor 1, player 2, svchost 4]" and order = "[]" and now = 6]
    editor_qualifies [of 1] player_qualifies [of 2] svchost_not_qualifies [of 4]
  by (simp add: run_defs sample_evals editor_name_of player_name_of ToLower_Editor
      ToLower_Player)


text \<open>
  C6 without the condition on the names fails: two qualifying processes named
  \<open>Editor.exe\<close> are running when the reset is handled; the next tick enqueues an insert
  for the first and none for the second, which is added to the ledger as a further
  instance.
\<close>

theorem reset_same_name_counterexample:
  "qualifies windows_rules (editor 2) \<and>
   range_order (state (StartProcessEventLogger windows_rules (\<lambda>i. True) 0 (Some [])
      [Tick [editor 1, editor 2] [] 5, Reset])) [] \<and>
   enqueued (StartProcessEventLogger windows_rules (\<lambda>i. True) 0 (Some [])
      [Tick [editor 1, editor 2] [] 5, Reset, Tick [editor 1, editor 2] [] 6]) =
     [insert_of 5 (editor 1), insert_of 6 (editor 1)] \<and>
   filter (\<lambda>w. is_insert w \<and> write_pid w = 2)
     (enqueued (StartProcessEventLogger windows_rules (\<lambda>i. True) 0 (Some [])
        [Tick [editor 1, editor 2] [] 5, Reset, Tick [editor 1, editor 2] [] 6])) = []"
  using editor_qualifies [of 2]
  by (simp add: run_defs sample_evals range_order_def insert_of_def)

section \<open>The consumer of the write queue\<close>

lemma StartDatabaseWriter_Nil: "StartDatabaseWriter Exec [] w = w"
  by (simp add: StartDatabaseWriter_def)

lemma StartDatabaseWriter_Cons:
  "StartDatabaseWriter Exec (req # reqs) w = StartDatabaseWriter Exec reqs (writer_step Exec req w)"
  by (simp add: StartDatabaseWriter_def)

lemma writer_step_calls: "calls (writer_step Exec req w) = calls w @ [req]"
  by (simp add: writer_step_def split: prod.splits option.splits)

lemma writer_step_store: "store (writer_step Exec req w) = fst (Exec (store w) req)"
  by (simp add: writer_step_def split: prod.splits option.splits)

lemma writer_step_errLog:
  "length (errLog (writer_step Exec req w)) =
     length (errLog w) + failed_calls Exec [req] (store w)"
  by (simp add: writer_step_def split: prod.splits option.splits)

lemma writer_calls: "calls (StartDatabaseWriter Exec reqs w) = calls w @ reqs"
  by (induction reqs arbitrary: w)
     (simp_all add: StartDatabaseWriter_Nil StartDatabaseWriter_Cons writer_step_calls)

lemma writer_errLog:
  "length (errLog (StartDatabaseWriter Exec reqs w)) =
     length (errLog w) + failed_calls Exec reqs (store w)"
proof (induction reqs arbitrary: w)
  case Nil
  show ?case by (simp add: StartDatabaseWriter_Nil)
next
  case (Cons req reqs)
  have "failed_calls Exec (req # reqs) (store w) =
        failed_calls Exec [req] (store w) + failed_calls Exec reqs (store (writer_step Exec req w))"
    by (simp add: writer_step_store split: prod.splits option.splits)
  then show ?case
    using Cons.IH [of "writer_step Exec req w"] writer_step_errLog [of Exec req w]
    by (simp add: StartDatabaseWriter_Cons)
qed

text \<open>
  C8. The consumer passes every request it receives to \<open>db.Exec\<close> exactly once, in the
  order of the queue, whether or not earlier ones failed: there is no retry and no
  stop. It prints one log line for each failure. A pass of the consumer leaves the
  monitor, and so the ledger and the counts, as they were; when the execution of the
  request at the head of the channel fails, the consumer's state afterwards is the
  store as \<open>db.Exec\<close> left it, the log with the failure added and the request among
  the calls made, and the channel holds the requests that followed it.
\<close>

theorem failed_write_is_dropped:
  "calls (StartDatabaseWriter Exec reqs w) = calls w @ reqs \<and>
   length (errLog (StartDatabaseWriter Exec reqs w)) =
     length (errLog w) + failed_calls Exec reqs (store w) \<and>
   logger (system_step F Exec y WriterTurn) = logger y \<and>
   (drop (length (calls (consumer y))) (enqueued (logger y)) = req # rest \<and>
    Exec (store (consumer y)) req = (db', Some err) \<longrightarrow>
    consumer (system_step F Exec y WriterTurn) =
      \<lparr>store = db',
       errLog = errLog (consumer y) @ [''[ERROR] Failed to execute write request: '' @ err],
       calls = calls (consumer y) @ [req]\<rparr> \<and>
    drop (length (calls (consumer (system_step F Exec y WriterTurn))))
      (enqueued (logger (system_step F Exec y WriterTurn))) = rest)"
proof (intro conjI impI)
  show "calls (StartDatabaseWriter Exec reqs w) = calls w @ reqs"
    by (rule writer_calls)
  show "length (errLog (StartDatabaseWriter Exec reqs w)) =
     length (errLog w) + failed_calls Exec reqs (store w)"
    by (rule writer_errLog)
  show "logger (system_step F Exec y WriterTurn) = logger y"
    by (simp split: list.splits)
next
  assume a: "drop (length (calls (consumer y))) (enqueued (logger y)) = req # rest \<and>
    Exec (store (consumer y)) req = (db', Some err)"
  then show "consumer (system_step F Exec y WriterTurn) =
      \<lparr>store = db',
       errLog = errLog (consumer y) @ [''[ERROR] Failed to execute write request: '' @ err],
       calls = calls (consumer y) @ [req]\<rparr>"
    by (simp add: writer_step_def)
  have "drop (Suc (length (calls (consumer y)))) (enqueued (logger y)) = rest"
    using a by (metis drop_Suc list.sel(3) tl_drop)
  then show "drop (length (calls (consumer (system_step F Exec y WriterTurn))))
      (enqueued (logger (system_step F Exec y WriterTurn))) = rest"
    using a by (simp add: writer_step_calls)
qed

theorem failed_write_is_dropped_witness:
  "consumer (foldl (system_step windows_rules failing_inserts)
      \<lparr>logger = startup (\<lambda>i. True) 0 (Some []),
       consumer = \<lparr>store = [], errLog = [], calls = []\<rparr>\<rparr>
      [MonitorTurn (Tick [editor 1] [] 5), WriterTurn, MonitorTurn (Tick [] [1] 7), WriterTurn]) =
     \<lparr>store = [],
      errLog = [''[ERROR] Failed to execute write request: disk I/O error''],
      calls = [insert_of 5 (editor 1), EndWrite 7 1]\<rparr> \<and>
   runningProcs (state (logger (foldl (system_step windows_rules failing_inserts)
      \<lparr>logger = startup (\<lambda>i. True) 0 (Some []),
       consumer = \<lparr>store = [], errLog = [], calls = []\<rparr>\<rparr>
      [MonitorTurn (Tick [editor 1] [] 5), WriterTurn]))) 1 = Some ''editor.exe'' \<and>
   calls (StartDatabaseWriter failing_inserts [insert_of 5 (editor 1), EndWrite 7 1]
      \<lparr>store = [], errLog = [], calls = []\<rparr>) = [insert_of 5 (editor 1), EndWrite 7 1] \<and>
   length (errLog (StartDatabaseWriter failing_inserts [insert_of 5 (editor 1), EndWrite 7 1]
      \<lparr>store = [], errLog = [], calls = []\<rparr>)) = 1"
  using failed_write_is_dropped [where Exec = failing_inserts
      and reqs = "[insert_of 5 (editor 1), EndWrite 7 1]"
      and w = "\<lparr>store = [], errLog = [], calls = []\<rparr>"
      and F = windows_rules
      and y = "\<lparr>logger = monitor_step windows_rules (startup (\<lambda>i. True) 0 (Some []))
                  (Tick [editor 1] [] 5),
               consumer = \<lparr>store = [], errLog = [], calls = []\<rparr>\<rparr>"
      and req = "insert_of 5 (editor 1)" and rest = "[]" and db' = "[]"
      and err = "''disk I/O error''"]
  by (simp add: run_defs sample_evals failing_inserts_def insert_of_def writer_step_def)

section \<open>Two reset signals in succession\<close>

lemmas chan_evals = ResetLoggedApps_def receive_def empty_chan_def

text \<open>
  C3, as the code has it. The first call of \<open>ResetLoggedApps\<close> fills the slot and
  returns. A second call while the slot is full waits; when the loop receives the
  first signal the second moves into the slot, so the loop receives a signal twice.
  Handling the second reset right after the first leaves the ledger, the counts and
  the queue as the first left them: both maps are empty.
\<close>

theorem reset_twice_handled_twice:
  "loop_run F (empty_chan, m) [Post] = Some (\<lparr>buffered = 1, blocked = 0\<rparr>, m) \<and>
   loop_run F (empty_chan, m) [Post, Post] = Some (\<lparr>buffered = 1, blocked = 1\<rparr>, m) \<and>
   loop_run F (empty_chan, m) [Post, Post, Select Reset] =
     Some (\<lparr>buffered = 1, blocked = 0\<rparr>, monitor_step F m Reset) \<and>
   loop_run F (empty_chan, m) [Post, Post, Select Reset, Select Reset] =
     Some (empty_chan, monitor_step F (monitor_step F m Reset) Reset) \<and>
   state (monitor_step F (monitor_step F m Reset) Reset) = state (monitor_step F m Reset) \<and>
   state (monitor_step F m Reset) = empty_state \<and>
   enqueued (monitor_step F (monitor_step F m Reset) Reset) = enqueued (monitor_step F m Reset)"
  by (simp add: chan_evals)

theorem reset_twice_handled_twice_witness:
  "loop_run windows_rules
     (empty_chan, StartProcessEventLogger windows_rules (\<lambda>i. True) 0 (Some [])
                    [Tick [editor 1] [] 5])
     [Post, Post, Select Reset, Select Reset] =
   Some (empty_chan,
     \<lparr>state = empty_state, enqueued = [insert_of 5 (editor 1)],
      appLog = [''[Logger] Reset signal received. Clearing in-memory state.'',
                ''[Logger] Reset signal received. Clearing in-memory state.'']\<rparr>)"
  using reset_twice_handled_twice [of windows_rules
      "StartProcessEventLogger windows_rules (\<lambda>i. True) 0 (Some []) [Tick [editor 1] [] 5]"]
  by (simp add: chan_evals run_defs sample_evals)


text \<open>
  C3 as stated fails: the send is not coalesced. After two calls one caller is waiting and the channel is
  not in the state one call leaves; the loop can take the reset case twice, and with a
  tick between the two the application that kept running is inserted a third time.
  After one call the second reset case cannot be taken.
\<close>

theorem reset_not_coalesced_counterexample:
  "ResetLoggedApps (ResetLoggedApps empty_chan) \<noteq> ResetLoggedApps empty_chan \<and>
   blocked (ResetLoggedApps (ResetLoggedApps empty_chan)) = 1 \<and>
   map_option (\<lambda>cm. enqueued (snd cm))
     (loop_run windows_rules
        (empty_chan, StartProcessEventLogger windows_rules (\<lambda>i. True) 0 (Some [])
                       [Tick [editor 1] [] 5])
        [Post, Post, Select Reset, Select (Tick [editor 1] [] 6),
         Select Reset, Select (Tick [editor 1] [] 7)]) =
     Some [insert_of 5 (editor 1), insert_of 6 (editor 1), insert_of 7 (editor 1)] \<and>
   loop_run windows_rules
        (empty_chan, StartProcessEventLogger windows_rules (\<lambda>i. True) 0 (Some [])
                       [Tick [editor 1] [] 5])
        [Post, Select Reset, Select (Tick [editor 1] [] 6), Select Reset] = None"
  by (simp add: chan_evals run_defs sample_evals)

section \<open>Instance counts and ledger entries\<close>

lemma entries_add:
  assumes "m i = None"
  shows "entries (m(i \<mapsto> v)) n = entries m n + (if v = n then 1 else 0)"
proof (cases "v = n")
  case True
  have eq: "{j. (m(i \<mapsto> v)) j = Some n} = insert i {j. m j = Some n}"
    using True by auto
  have "card (insert i {j. m j = Some n}) = Suc (card {j. m j = Some n})"
    by (rule card_insert_disjoint) (simp_all add: assms)
  then show ?thesis unfolding entries_def eq using True by simp
next
  case False
  have "{j. (m(i \<mapsto> v)) j = Some n} = {j. m j = Some n}"
    using False assms by auto
  then show ?thesis unfolding entries_def using False by simp
qed

lemma entries_remove:
  assumes "m i = Some v"
  shows "entries (m(i := None)) n = entries m n - (if v = n then 1 else 0)"
proof (cases "v = n")
  case True
  have eq: "{j. (m(i := None)) j = Some n} = {j. m j = Some n} - {i}"
    by auto
  have "card ({j. m j = Some n} - {i}) = card {j. m j = Some n} - 1"
    by (rule card_Diff_singleton) (simp add: assms True)
  then show ?thesis unfolding entries_def eq using True by simp
next
  case False
  have "{j. (m(i := None)) j = Some n} = {j. m j = Some n}"
    using False assms by auto
  then show ?thesis unfolding entries_def using False by simp
qed

lemma entries_pos:
  assumes "m i = Some v"
  shows "0 < entries m v"
proof -
  have "i \<in> {j. m j = Some v}" using assms by simp
  then have "{j. m j = Some v} \<noteq> {}" by blast
  then show ?thesis unfolding entries_def by (simp add: card_gt_0_iff)
qed

lemma count_of_simps:
  "count_of (s\<lparr>runningProcs := P, runningAppCounts := C\<rparr>) n =
     (case C n of None \<Rightarrow> 0 | Some c \<Rightarrow> c)"
  "count_of (s\<lparr>runningProcs := P\<rparr>) n = count_of s n"
  by (simp_all add: count_of_def)

lemma ledger_entries_simps:
  "ledger_entries (s\<lparr>runningProcs := P, runningAppCounts := C\<rparr>) n = entries P n"
  "ledger_entries (s\<lparr>runningProcs := P\<rparr>) n = entries P n"
  by (simp_all add: ledger_entries_def)

text \<open>The two invariants at one name, before and after the removal of an entry.\<close>

lemma ended_pass:
  assumes led: "runningProcs s i = Some v"
  defines "c \<equiv> count_of s v - 1"
  defines "s' \<equiv> s\<lparr>runningProcs := (runningProcs s)(i := None),
               runningAppCounts :=
                 (if c \<le> 0 then (runningAppCounts s)(v := None)
                  else (runningAppCounts s)(v \<mapsto> c))\<rparr>"
  shows "counts_bounded s \<Longrightarrow> counts_bounded s'"
    and "counts_exact s \<Longrightarrow> counts_exact s'"
proof -
  have en: "\<And>n. ledger_entries s' n = ledger_entries s n - (if v = n then 1 else 0)"
    using entries_remove [of "runningProcs s" i v, OF led]
    by (simp add: s'_def ledger_entries_simps ledger_entries_def)
  have pos: "0 < ledger_entries s v"
    using entries_pos [of "runningProcs s" i v, OF led] by (simp add: ledger_entries_def)
  have cn: "\<And>n. count_of s' n = (if n = v then (if c \<le> 0 then 0 else c) else count_of s n)"
    by (simp add: s'_def count_of_simps) (simp add: count_of_def)
  have st: "\<And>n d. runningAppCounts s' n = Some d \<Longrightarrow>
              (n = v \<and> d = c \<and> 0 < c) \<or> (n \<noteq> v \<and> runningAppCounts s n = Some d)"
    by (auto simp: s'_def split: if_splits)
  show "counts_bounded s \<Longrightarrow> counts_bounded s'"
  proof -
    assume a: "counts_bounded s"
    show "counts_bounded s'"
      unfolding counts_bounded_def
    proof (intro allI conjI impI)
      fix n d assume "runningAppCounts s' n = Some d"
      then show "0 < d" using st [of n d] a by (auto simp: counts_bounded_def)
    next
      fix n
      have "count_of s n \<le> int (ledger_entries s n)" using a by (simp add: counts_bounded_def)
      then show "count_of s' n \<le> int (ledger_entries s' n)"
        using pos by (auto simp: cn en c_def)
    qed
  qed
  show "counts_exact s \<Longrightarrow> counts_exact s'"
  proof -
    assume a: "counts_exact s"
    show "counts_exact s'"
      unfolding counts_exact_def
    proof (intro allI conjI impI)
      fix n d assume "runningAppCounts s' n = Some d"
      then show "0 < d" using st [of n d] a by (auto simp: counts_exact_def)
    next
      fix n
      have "count_of s n = int (ledger_entries s n)" using a by (simp add: counts_exact_def)
      then show "count_of s' n = int (ledger_entries s' n)"
        using pos by (auto simp: cn en c_def)
    qed
  qed
qed

lemma logEndedProcess_counts:
  "counts_bounded s \<Longrightarrow> counts_bounded (fst (logEndedProcess cur now i (s, q)))"
  "counts_exact s \<Longrightarrow> counts_exact (fst (logEndedProcess cur now i (s, q)))"
  using ended_pass [of s i]
  by (auto simp: logEndedProcess_def Let_def split: option.splits)

lemma count_pos_stored:
  "\<forall>c. runningAppCounts s n = Some c \<longrightarrow> 0 < c \<Longrightarrow> 0 \<le> count_of s n"
  by (auto simp: count_of_def split: option.splits)

lemma new_pass:
  fixes v :: string
  assumes led: "runningProcs s i = None"
  defines "s' \<equiv> s\<lparr>runningProcs := (runningProcs s)(i \<mapsto> v),
               runningAppCounts := (runningAppCounts s)(v \<mapsto> count_of s v + 1)\<rparr>"
  shows "counts_bounded s \<Longrightarrow> counts_bounded s'"
    and "counts_exact s \<Longrightarrow> counts_exact s'"
proof -
  have en: "\<And>n. ledger_entries s' n = ledger_entries s n + (if v = n then 1 else 0)"
    using entries_add [of "runningProcs s" i, OF led]
    by (simp add: s'_def ledger_entries_simps ledger_entries_def)
  have cn: "\<And>n. count_of s' n = (if n = v then count_of s v + 1 else count_of s n)"
    by (simp add: s'_def count_of_simps) (simp add: count_of_def)
  have st: "\<And>n d. runningAppCounts s' n = Some d \<Longrightarrow>
              (n = v \<and> d = count_of s v + 1) \<or> (n \<noteq> v \<and> runningAppCounts s n = Some d)"
    by (auto simp: s'_def split: if_splits)
  show "counts_bounded s \<Longrightarrow> counts_bounded s'"
  proof -
    assume a: "counts_bounded s"
    have nn: "0 \<le> count_of s v"
      using a by (auto simp: counts_bounded_def intro: count_pos_stored)
    show "counts_bounded s'"
      unfolding counts_bounded_def
    proof (intro allI conjI impI)
      fix n d assume "runningAppCounts s' n = Some d"
      then show "0 < d" using st [of n d] a nn by (auto simp: counts_bounded_def)
    next
      fix n
      have "count_of s n \<le> int (ledger_entries s n)" using a by (simp add: counts_bounded_def)
      then show "count_of s' n \<le> int (ledger_entries s' n)"
        by (auto simp: cn en)
    qed
  qed
  show "counts_exact s \<Longrightarrow> counts_exact s'"
  proof -
    assume a: "counts_exact s"
    have nn: "0 \<le> count_of s v"
      using a by (auto simp: counts_exact_def intro: count_pos_stored)
    show "counts_exact s'"
      unfolding counts_exact_def
    proof (intro allI conjI impI)
      fix n d assume "runningAppCounts s' n = Some d"
      then show "0 < d" using st [of n d] a nn by (auto simp: counts_exact_def)
    next
      fix n
      have "count_of s n = int (ledger_entries s n)" using a by (simp add: counts_exact_def)
      then show "count_of s' n = int (ledger_entries s' n)"
        by (auto simp: cn en)
    qed
  qed
qed

lemma excluded_pass:
  assumes led: "runningProcs s i = None" and a: "counts_bounded s"
  shows "counts_bounded (s\<lparr>runningProcs := (runningProcs s)(i \<mapsto> v)\<rparr>)"
  unfolding counts_bounded_def
proof (intro allI conjI impI)
  fix n d assume "runningAppCounts (s\<lparr>runningProcs := (runningProcs s)(i \<mapsto> v)\<rparr>) n = Some d"
  then show "0 < d" using a by (auto simp: counts_bounded_def)
next
  fix n
  have "count_of s n \<le> int (ledger_entries s n)" using a by (simp add: counts_bounded_def)
  then show "count_of (s\<lparr>runningProcs := (runningProcs s)(i \<mapsto> v)\<rparr>) n
               \<le> int (ledger_entries (s\<lparr>runningProcs := (runningProcs s)(i \<mapsto> v)\<rparr>) n)"
    using entries_add [of "runningProcs s" i v n, OF led]
    by (simp add: count_of_simps ledger_entries_simps ledger_entries_def)
qed

lemma logNewProcess_counts:
  "counts_bounded s \<Longrightarrow> counts_bounded (fst (logNewProcess F now p (s, q)))"
  "counts_exact s \<Longrightarrow> \<not> excluded F p \<Longrightarrow> counts_exact (fst (logNewProcess F now p (s, q)))"
  using new_pass [of s "Pid p"] excluded_pass [of s "Pid p"]
  by (auto simp: logNewProcess_def Let_def excluded_def split: option.splits)

lemma logEndedProcesses_bounded:
  "counts_bounded s \<Longrightarrow> counts_bounded (fst (logEndedProcesses cur now order (s, q)))"
proof (induction order arbitrary: s q)
  case Nil
  then show ?case by (simp add: logEndedProcesses_Nil)
next
  case (Cons i order)
  obtain s1 q1 where c1: "logEndedProcess cur now i (s, q) = (s1, q1)"
    by (cases "logEndedProcess cur now i (s, q)")
  have "counts_bounded s1"
    using c1 logEndedProcess_counts(1) [OF Cons.prems, of cur now i q] by simp
  then show ?case using Cons.IH [of s1 q1] c1 by (simp add: logEndedProcesses_Cons)
qed

lemma logNewProcesses_bounded:
  "counts_bounded s \<Longrightarrow> counts_bounded (fst (logNewProcesses F now procs (s, q)))"
proof (induction procs arbitrary: s q)
  case Nil
  then show ?case by (simp add: logNewProcesses_Nil)
next
  case (Cons p procs)
  obtain s1 q1 where c1: "logNewProcess F now p (s, q) = (s1, q1)"
    by (cases "logNewProcess F now p (s, q)")
  have "counts_bounded s1"
    using c1 logNewProcess_counts(1) [OF Cons.prems, of F now p q] by simp
  then show ?case using Cons.IH [of s1 q1] c1 by (simp add: logNewProcesses_Cons)
qed

lemma empty_state_counts: "counts_bounded empty_state" "counts_exact empty_state"
  by (simp_all add: counts_bounded_def counts_exact_def empty_state_def count_of_def
      ledger_entries_def entries_def)

lemma monitor_step_bounded:
  assumes a: "counts_bounded (state m)"
  shows "counts_bounded (state (monitor_step F m e))"
proof (cases e)
  case (Tick procs order now)
  obtain s1 q1 where c1:
    "logEndedProcesses (currentPids procs) now order (state m, enqueued m) = (s1, q1)"
    by (cases "logEndedProcesses (currentPids procs) now order (state m, enqueued m)")
  have "counts_bounded s1"
    using c1 logEndedProcesses_bounded [OF a, of "currentPids procs" now order "enqueued m"]
    by simp
  then have "counts_bounded (fst (logNewProcesses F now procs (s1, q1)))"
    by (rule logNewProcesses_bounded)
  then show ?thesis using Tick c1 by (simp add: split_beta)
next
  case TickFailed
  then show ?thesis using a by simp
next
  case Reset
  then show ?thesis by (simp add: empty_state_counts)
qed

lemma run_bounded:
  "counts_bounded (state m) \<Longrightarrow> counts_bounded (state (foldl (monitor_step F) m evs))"
proof (induction evs arbitrary: m)
  case Nil
  then show ?case by simp
next
  case (Cons e evs)
  have "counts_bounded (state (monitor_step F m e))"
    using Cons.prems by (rule monitor_step_bounded)
  then show ?case using Cons.IH [of "monitor_step F m e"] by simp
qed

lemma counts_exact_bounded: "counts_exact s \<Longrightarrow> counts_bounded s"
  by (simp add: counts_exact_def counts_bounded_def)

lemma scanned_Cons:
  "scanned (Some (r # rs)) = (case r of None \<Rightarrow> [] | Some x \<Rightarrow> [x]) @ scanned (Some rs)"
  by (simp add: scanned_def)

lemma seedRow_exact:
  assumes "counts_exact s"
    and "\<forall>i name. row = Some (i, name) \<and> PidExists i \<longrightarrow> runningProcs s i = None"
  shows "counts_exact (fst (seedRow PidExists now row (s, q)))"
  using assms new_pass(2) [of s]
  by (auto simp: seedRow_def Let_def split: option.splits)

lemma seedRow_absent:
  assumes "runningProcs s j = None"
    and "\<forall>i name. row = Some (i, name) \<and> PidExists i \<longrightarrow> i \<noteq> j"
  shows "runningProcs (fst (seedRow PidExists now row (s, q))) j = None"
  using assms by (auto simp: seedRow_def Let_def split: option.splits)

lemma seed_fold_exact:
  assumes "counts_exact s"
    and "distinct (map fst (live_rows PidExists (scanned (Some rs))))"
    and "\<forall>r\<in>set (live_rows PidExists (scanned (Some rs))). runningProcs s (fst r) = None"
  shows "counts_exact (fst (fold (seedRow PidExists now) rs (s, q)))"
  using assms
proof (induction rs arbitrary: s q)
  case Nil
  then show ?case by simp
next
  case (Cons r rs)
  obtain s1 q1 where c1: "seedRow PidExists now r (s, q) = (s1, q1)"
    by (cases "seedRow PidExists now r (s, q)")
  have fresh: "\<forall>i name. r = Some (i, name) \<and> PidExists i \<longrightarrow> runningProcs s i = None"
    using Cons.prems(3) by (fastforce simp: scanned_Cons live_rows_def)
  have e1: "counts_exact s1"
    using c1 seedRow_exact [OF Cons.prems(1) fresh, of now q] by simp
  have d1: "distinct (map fst (live_rows PidExists (scanned (Some rs))))"
    using Cons.prems(2) by (auto simp: scanned_Cons live_rows_def split: option.splits)
  have a1: "\<forall>r'\<in>set (live_rows PidExists (scanned (Some rs))). runningProcs s1 (fst r') = None"
  proof
    fix r' assume r': "r' \<in> set (live_rows PidExists (scanned (Some rs)))"
    have "runningProcs s (fst r') = None"
      using Cons.prems(3) r' by (auto simp: scanned_Cons live_rows_def)
    moreover have "\<forall>i name. r = Some (i, name) \<and> PidExists i \<longrightarrow> i \<noteq> fst r'"
      using Cons.prems(2) r' by (auto simp: scanned_Cons live_rows_def image_iff)
    ultimately show "runningProcs s1 (fst r') = None"
      using c1 seedRow_absent [of s "fst r'" r PidExists now q] by simp
  qed
  show ?case using Cons.IH [OF e1 d1 a1, of q1] c1 by simp
qed

lemma startup_exact:
  assumes "distinct (map fst (live_rows PidExists (scanned rows)))"
  shows "counts_exact (state (startup PidExists now rows))"
proof (cases rows)
  case None
  then show ?thesis
    by (simp add: startup_def initializeRunningProcs_def empty_state_counts)
next
  case (Some rs)
  have "counts_exact (fst (fold (seedRow PidExists now) rs (empty_state, [])))"
    using assms Some
    by (intro seed_fold_exact) (simp_all add: empty_state_counts, simp add: empty_state_def)
  then show ?thesis using Some
    by (simp add: startup_def initializeRunningProcs_def split_beta)
qed

lemma svchost_excluded: "excluded windows_rules (svchost i)"
  using under_system_dir_excluded [OF svchost_under_system_dir, of "svchost i"]
  by (simp add: excluded_def svchost_fields)

lemma ended_pass_at:
  assumes led: "runningProcs s i = Some v"
  defines "c \<equiv> count_of s v - 1"
  defines "s' \<equiv> s\<lparr>runningProcs := (runningProcs s)(i := None),
               runningAppCounts :=
                 (if c \<le> 0 then (runningAppCounts s)(v := None)
                  else (runningAppCounts s)(v \<mapsto> c))\<rparr>"
  shows "exact_at n s \<Longrightarrow> exact_at n s'"
proof -
  have en: "ledger_entries s' n = ledger_entries s n - (if v = n then 1 else 0)"
    using entries_remove [of "runningProcs s" i v, OF led]
    by (simp add: s'_def ledger_entries_simps ledger_entries_def)
  have pos: "0 < ledger_entries s v"
    using entries_pos [of "runningProcs s" i v, OF led] by (simp add: ledger_entries_def)
  have cn: "count_of s' n = (if n = v then (if c \<le> 0 then 0 else c) else count_of s n)"
    by (simp add: s'_def count_of_simps) (simp add: count_of_def)
  show "exact_at n s \<Longrightarrow> exact_at n s'"
    unfolding exact_at_def using pos by (auto simp: cn en c_def)
qed

lemma new_pass_at:
  fixes v :: string
  assumes led: "runningProcs s i = None"
  defines "s' \<equiv> s\<lparr>runningProcs := (runningProcs s)(i \<mapsto> v),
               runningAppCounts := (runningAppCounts s)(v \<mapsto> count_of s v + 1)\<rparr>"
  shows "exact_at n s \<Longrightarrow> exact_at n s'"
proof -
  have en: "ledger_entries s' n = ledger_entries s n + (if v = n then 1 else 0)"
    using entries_add [of "runningProcs s" i, OF led]
    by (simp add: s'_def ledger_entries_simps ledger_entries_def)
  have cn: "count_of s' n = (if n = v then count_of s v + 1 else count_of s n)"
    by (simp add: s'_def count_of_simps) (simp add: count_of_def)
  show "exact_at n s \<Longrightarrow> exact_at n s'"
    unfolding exact_at_def by (auto simp: cn en)
qed

lemma excluded_pass_at:
  assumes led: "runningProcs s i = None" and "v \<noteq> n" and "exact_at n s"
  shows "exact_at n (s\<lparr>runningProcs := (runningProcs s)(i \<mapsto> v)\<rparr>)"
  using assms entries_add [of "runningProcs s" i v n, OF led]
  by (simp add: exact_at_def count_of_simps ledger_entries_simps ledger_entries_def)

lemma logEndedProcess_at:
  "exact_at n s \<Longrightarrow> exact_at n (fst (logEndedProcess cur now i (s, q)))"
  using ended_pass_at [of s i _ n]
  by (auto simp: logEndedProcess_def Let_def split: option.splits)

lemma logNewProcess_at:
  "exact_at n s \<Longrightarrow> \<not> excluded_under F n p \<Longrightarrow>
   exact_at n (fst (logNewProcess F now p (s, q)))"
  using new_pass_at [of s "Pid p" n] excluded_pass_at [of s "Pid p" _ n]
  by (auto simp: logNewProcess_def Let_def excluded_under_def excluded_def split: option.splits)

lemma logEndedProcesses_at:
  "exact_at n s \<Longrightarrow> exact_at n (fst (logEndedProcesses cur now order (s, q)))"
proof (induction order arbitrary: s q)
  case Nil
  then show ?case by (simp add: logEndedProcesses_Nil)
next
  case (Cons i order)
  obtain s1 q1 where c1: "logEndedProcess cur now i (s, q) = (s1, q1)"
    by (cases "logEndedProcess cur now i (s, q)")
  have "exact_at n s1"
    using c1 logEndedProcess_at [OF Cons.prems, of cur now i q] by simp
  then show ?case using Cons.IH [of s1 q1] c1 by (simp add: logEndedProcesses_Cons)
qed

lemma logNewProcesses_at:
  "exact_at n s \<Longrightarrow> \<forall>p\<in>set procs. \<not> excluded_under F n p \<Longrightarrow>
     exact_at n (fst (logNewProcesses F now procs (s, q)))"
proof (induction procs arbitrary: s q)
  case Nil
  then show ?case by (simp add: logNewProcesses_Nil)
next
  case (Cons p procs)
  obtain s1 q1 where c1: "logNewProcess F now p (s, q) = (s1, q1)"
    by (cases "logNewProcess F now p (s, q)")
  have "exact_at n s1"
    using c1 logNewProcess_at [OF Cons.prems(1), of F p now q] Cons.prems(2) by simp
  then show ?case using Cons.IH [of s1 q1] c1 Cons.prems(2) by (simp add: logNewProcesses_Cons)
qed

lemma monitor_step_at:
  assumes a: "exact_at n (state m)" and b: "\<forall>p\<in>set (tick_procs e). \<not> excluded_under F n p"
  shows "exact_at n (state (monitor_step F m e))"
proof (cases e)
  case (Tick procs order now)
  obtain s1 q1 where c1:
    "logEndedProcesses (currentPids procs) now order (state m, enqueued m) = (s1, q1)"
    by (cases "logEndedProcesses (currentPids procs) now order (state m, enqueued m)")
  have "exact_at n s1"
    using c1 logEndedProcesses_at [OF a, of "currentPids procs" now order "enqueued m"]
    by simp
  then have "exact_at n (fst (logNewProcesses F now procs (s1, q1)))"
    using b Tick by (intro logNewProcesses_at) simp_all
  then show ?thesis using Tick c1 by (simp add: split_beta)
next
  case TickFailed
  then show ?thesis using a by simp
next
  case Reset
  then show ?thesis
    by (simp add: exact_at_def empty_state_def count_of_def ledger_entries_def entries_def)
qed

lemma run_at:
  "exact_at n (state m) \<Longrightarrow> \<forall>p\<in>set (observed evs). \<not> excluded_under F n p \<Longrightarrow>
     exact_at n (state (foldl (monitor_step F) m evs))"
proof (induction evs arbitrary: m)
  case Nil
  then show ?case by simp
next
  case (Cons e evs)
  have "exact_at n (state (monitor_step F m e))"
    using Cons.prems by (intro monitor_step_at) (simp_all add: observed_def)
  then show ?case using Cons.IH [of "monitor_step F m e"] Cons.prems(2)
    by (simp add: observed_def)
qed

lemma svchost_not_under_editor: "\<not> excluded_under windows_rules ''editor.exe'' (svchost i)"
  by (simp add: excluded_under_def svchost_fields ToLower_def lower_char_def)

lemma editor_not_excluded_under: "\<not> excluded_under windows_rules n (editor i)"
  using editor_not_excluded [of i] by (simp add: excluded_under_def excluded_def editor_fields)

text \<open>
  C1, as the code has it. Let the rows read at startup whose process exists have
  pairwise distinct identifiers. Then in every state the loop reaches, after any
  ticks, failed ticks and resets, the count of every lowercase name is not negative,
  is never stored as zero, and is at most the number of ledger entries under that
  name; and for every name under which no excluded process is listed in the run, the
  count equals the number of ledger entries under that name, whatever is excluded
  under other names.
\<close>

theorem count_matches_ledger:
  assumes "distinct (map fst (live_rows PidExists (scanned rows)))"
  shows "0 \<le> count_of (state (StartProcessEventLogger F PidExists now rows evs)) n \<and>
         count_of (state (StartProcessEventLogger F PidExists now rows evs)) n
           \<le> int (ledger_entries (state (StartProcessEventLogger F PidExists now rows evs)) n) \<and>
         runningAppCounts (state (StartProcessEventLogger F PidExists now rows evs)) n
           \<noteq> Some 0 \<and>
         ((\<forall>p\<in>set (observed evs). \<not> excluded_under F n p) \<longrightarrow>
          count_of (state (StartProcessEventLogger F PidExists now rows evs)) n =
            int (ledger_entries (state (StartProcessEventLogger F PidExists now rows evs)) n))"
proof -
  let ?m = "StartProcessEventLogger F PidExists now rows evs"
  have ex0: "counts_exact (state (startup PidExists now rows))"
    using assms by (rule startup_exact)
  have "counts_bounded (state ?m)"
    unfolding StartProcessEventLogger_def
    by (rule run_bounded) (rule counts_exact_bounded [OF ex0])
  then have b: "0 \<le> count_of (state ?m) n \<and>
            count_of (state ?m) n \<le> int (ledger_entries (state ?m) n) \<and>
            runningAppCounts (state ?m) n \<noteq> Some 0"
    by (auto simp: counts_bounded_def intro: count_pos_stored)
  have at0: "exact_at n (state (startup PidExists now rows))"
    using ex0 by (simp add: counts_exact_def exact_at_def)
  have "(\<forall>p\<in>set (observed evs). \<not> excluded_under F n p) \<longrightarrow> exact_at n (state ?m)"
    unfolding StartProcessEventLogger_def using run_at [OF at0] by blast
  then show ?thesis using b by (simp add: exact_at_def)
qed

theorem count_matches_ledger_witness:
  "distinct (map fst (live_rows (\<lambda>i. True) (scanned (Some [Some (1, ''Editor.exe'')])))) \<and>
   excluded windows_rules (svchost 4) \<and>
   count_of (state (StartProcessEventLogger windows_rules (\<lambda>i. True) 0
       (Some [Some (1, ''Editor.exe'')]) [Tick [svchost 4, editor 1, editor 2] [1] 10]))
     ''editor.exe'' = 2 \<and>
   ledger_entries (state (StartProcessEventLogger windows_rules (\<lambda>i. True) 0
       (Some [Some (1, ''Editor.exe'')]) [Tick [svchost 4, editor 1, editor 2] [1] 10]))
     ''editor.exe'' = 2"
proof -
  have d: "distinct (map fst (live_rows (\<lambda>i. True) (scanned (Some [Some (1, ''Editor.exe'')]))))"
    by (simp add: live_rows_def scanned_def)
  have ne: "\<forall>p\<in>set (observed [Tick [svchost 4, editor 1, editor 2] [1] 10]).
              \<not> excluded_under windows_rules ''editor.exe'' p"
    by (simp add: observed_def editor_not_excluded_under svchost_not_under_editor)
  have c: "count_of (state (StartProcessEventLogger windows_rules (\<lambda>i. True) 0
       (Some [Some (1, ''Editor.exe'')]) [Tick [svchost 4, editor 1, editor 2] [1] 10]))
     ''editor.exe'' = 2"
    by (simp add: run_defs sample_evals ToLower_Editor Let_def)
  show ?thesis
    using count_matches_ledger [OF d, of windows_rules 0
        "[Tick [svchost 4, editor 1, editor 2] [1] 10]" "''editor.exe''"]
      ne c d svchost_excluded [of 4]
    by simp
qed


text \<open>
  C1 as stated fails in two ways. A process that the rules exclude is entered in the
  ledger under its name and not counted: after one tick that lists a service host under
  \<open>System32\<close> the ledger has one entry named \<open>svchost.exe\<close> and the count of that name is
  0. And the seeding counts every row while the ledger keeps one entry for an
  identifier: the store that a reset leaves with two open rows for the editor's
  identifier seeds, at the next startup, a count of 2 against one ledger entry.
\<close>

theorem count_counterexample:
  "range_order (state (startup (\<lambda>i. True) 0 (Some []))) [] \<and>
   count_of (state (StartProcessEventLogger windows_rules (\<lambda>i. True) 0 (Some [])
       [Tick [svchost 4] [] 5])) ''svchost.exe'' = 0 \<and>
   ledger_entries (state (StartProcessEventLogger windows_rules (\<lambda>i. True) 0 (Some [])
       [Tick [svchost 4] [] 5])) ''svchost.exe'' = 1 \<and>
   open_query (exec_all (enqueued (StartProcessEventLogger windows_rules (\<lambda>i. True) 0
       (Some []) [Tick [editor 1] [] 5, Reset, Tick [editor 1] [] 6])) []) =
     Some [Some (1, ''Editor.exe''), Some (1, ''Editor.exe'')] \<and>
   count_of (state (startup (\<lambda>i. True) 9
       (Some [Some (1, ''Editor.exe''), Some (1, ''Editor.exe'')]))) ''editor.exe'' = 2 \<and>
   ledger_entries (state (startup (\<lambda>i. True) 9
       (Some [Some (1, ''Editor.exe''), Some (1, ''Editor.exe'')]))) ''editor.exe'' = 1"
  by (simp add: run_defs sample_evals range_order_def ledger_entries_def entries_def
      open_query_def open_rows_def exec_all_def insert_of_def name_of_def editor_fields
      ToLower_Editor Let_def)

text \<open>
  The pass of \<open>logEndedProcesses\<close> does not tell a counted entry from one recorded
  for an excluded process. When a system component named like the editor ends while
  the editor runs, the editor's count drops to 0 although its entry stays, and a
  second editor started afterwards is inserted as if none were logged.
\<close>

lemma system_editor_fields:
  "Pid (system_editor i) = i" "Name (system_editor i) = Some ''Editor.exe''"
  "Exe (system_editor i) =
     Some (''C:'' @ bsl # ''Windows'' @ bsl # ''System32'' @ bsl # ''Editor.exe'')"
  by (simp_all add: system_editor_def)

lemma system_editor_under_system_dir:
  "under_system_dir (''C:'' @ bsl # ''Windows'' @ bsl # ''System32'' @ bsl # ''Editor.exe'')"
  by (simp add: under_system_dir_def system32_dir_def ToLower_def lower_char_def)

lemma logNew_system_editor:
  "logNewProcess windows_rules now (system_editor i) (s, q) =
    (if runningProcs s i \<noteq> None then (s, q)
     else (s\<lparr>runningProcs := (runningProcs s)(i \<mapsto> ''editor.exe'')\<rparr>, q))"
  using under_system_dir_excluded [OF system_editor_under_system_dir, of "system_editor i"]
  by (simp add: logNewProcess_def Let_def system_editor_fields ToLower_Editor
      del: append.simps)

lemma ended_excluded_entry_is_uncounted:
  "range_order (state (StartProcessEventLogger windows_rules (\<lambda>i. True) 0 (Some [])
      [Tick [system_editor 4, editor 1] [] 5])) [4, 1] \<and>
   count_of (state (StartProcessEventLogger windows_rules (\<lambda>i. True) 0 (Some [])
      [Tick [system_editor 4, editor 1] [] 5, Tick [editor 1] [4, 1] 6])) ''editor.exe'' = 0 \<and>
   runningProcs (state (StartProcessEventLogger windows_rules (\<lambda>i. True) 0 (Some [])
      [Tick [system_editor 4, editor 1] [] 5, Tick [editor 1] [4, 1] 6])) 1 = Some ''editor.exe'' \<and>
   enqueued (StartProcessEventLogger windows_rules (\<lambda>i. True) 0 (Some [])
      [Tick [system_editor 4, editor 1] [] 5, Tick [editor 1] [4, 1] 6,
       Tick [editor 1, editor 2] [1] 7]) =
     [insert_of 5 (editor 1), EndWrite 6 4, insert_of 7 (editor 2)]"
  by (simp add: run_defs sample_evals logNew_system_editor system_editor_fields range_order_def)
     auto

section \<open>One open row for each identifier\<close>

lemma exec_all_snoc: "exec_all (q @ [w]) db = exec_write w (exec_all q db)"
  by (simp add: exec_all_def)

lemma open_pids_end:
  "open_pids (exec_write (EndWrite t i) db) = filter (\<lambda>j. j \<noteq> i) (open_pids db)"
  by (induction db) (auto simp: open_pids_def open_rows_def)

lemma open_pids_insert:
  "open_pids (exec_write (InsertWrite name i parent exe t) db) = open_pids db @ [i]"
  by (simp add: open_pids_def open_rows_def)

lemma at_most_one_open_pids: "at_most_one_open db = distinct (open_pids db)"
  by (simp add: at_most_one_open_def open_pids_def)

lemma prefixes_snoc:
  "(\<forall>k. at_most_one_open (exec_all (take k (q @ [w])) db)) =
   ((\<forall>k. at_most_one_open (exec_all (take k q) db)) \<and>
    at_most_one_open (exec_all (q @ [w]) db))"
proof
  assume a: "\<forall>k. at_most_one_open (exec_all (take k (q @ [w])) db)"
  have "\<forall>k. at_most_one_open (exec_all (take k q) db)"
  proof
    fix k
    have "take (min k (length q)) (q @ [w]) = take k q" by (simp add: min_def)
    then show "at_most_one_open (exec_all (take k q) db)"
      using a by metis
  qed
  moreover have "at_most_one_open (exec_all (q @ [w]) db)"
    using a [rule_format, of "Suc (length q)"] by simp
  ultimately show "(\<forall>k. at_most_one_open (exec_all (take k q) db)) \<and>
    at_most_one_open (exec_all (q @ [w]) db)" by blast
next
  assume a: "(\<forall>k. at_most_one_open (exec_all (take k q) db)) \<and>
    at_most_one_open (exec_all (q @ [w]) db)"
  show "\<forall>k. at_most_one_open (exec_all (take k (q @ [w])) db)"
  proof
    fix k
    show "at_most_one_open (exec_all (take k (q @ [w])) db)"
    proof (cases "k \<le> length q")
      case True
      then show ?thesis using a by simp
    next
      case False
      then have "take k (q @ [w]) = q @ [w]" by simp
      then show ?thesis using a by simp
    qed
  qed
qed

lemma store_safe_end:
  assumes "store_safe db R (s, q)" and "P' = (runningProcs s)(i := None)"
  shows "store_safe db R (s\<lparr>runningProcs := P', runningAppCounts := C\<rparr>, q @ [EndWrite now i])"
proof -
  have d: "distinct (open_pids (exec_all q db))"
    using assms(1) [unfolded store_safe_def, THEN conjunct1, rule_format, of "length q"]
    by (simp add: at_most_one_open_pids)
  have sub: "set (open_pids (exec_all q db)) \<subseteq> dom (runningProcs s) \<union> R"
    using assms(1) by (simp add: store_safe_def)
  have "at_most_one_open (exec_all (q @ [EndWrite now i]) db)"
    using d by (simp add: at_most_one_open_pids exec_all_snoc open_pids_end del: exec_write.simps)
  moreover have "set (open_pids (exec_all (q @ [EndWrite now i]) db)) \<subseteq> dom P' \<union> R"
    using sub assms(2) by (auto simp: exec_all_snoc open_pids_end simp del: exec_write.simps)
  ultimately show ?thesis
    using assms(1) by (simp add: store_safe_def prefixes_snoc del: take_append)
qed

lemma store_safe_grow:
  assumes "store_safe db R (s, q)" and "P' = (runningProcs s)(i \<mapsto> v)"
  shows "store_safe db R (s\<lparr>runningProcs := P', runningAppCounts := C\<rparr>, q)"
    and "store_safe db R (s\<lparr>runningProcs := P'\<rparr>, q)"
  using assms by (auto simp: store_safe_def)

lemma store_safe_insert:
  assumes "store_safe db {} (s, q)" and "runningProcs s i = None"
    and "P' = (runningProcs s)(i \<mapsto> v)"
  shows "store_safe db {} (s\<lparr>runningProcs := P', runningAppCounts := C\<rparr>,
           q @ [InsertWrite name i parent exe t])"
proof -
  have d: "distinct (open_pids (exec_all q db))"
    using assms(1) [unfolded store_safe_def, THEN conjunct1, rule_format, of "length q"]
    by (simp add: at_most_one_open_pids)
  have sub: "set (open_pids (exec_all q db)) \<subseteq> dom (runningProcs s)"
    using assms(1) by (simp add: store_safe_def)
  have ni: "i \<notin> set (open_pids (exec_all q db))"
    using sub assms(2) by auto
  have "at_most_one_open (exec_all (q @ [InsertWrite name i parent exe t]) db)"
    using d ni by (simp add: at_most_one_open_pids exec_all_snoc open_pids_insert del: exec_write.simps)
  moreover have "set (open_pids (exec_all (q @ [InsertWrite name i parent exe t]) db)) \<subseteq> dom P'"
    using sub assms(3) by (auto simp: exec_all_snoc open_pids_insert simp del: exec_write.simps)
  ultimately show ?thesis
    using assms(1) by (simp add: store_safe_def prefixes_snoc del: take_append)
qed

lemma logEndedProcess_safe:
  "store_safe db R (s, q) \<Longrightarrow> store_safe db R (logEndedProcess cur now i (s, q))"
  using store_safe_end [of db R s q _ i]
  by (auto simp: logEndedProcess_def Let_def split: option.splits)

lemma logNewProcess_safe:
  "store_safe db {} (s, q) \<Longrightarrow> store_safe db {} (logNewProcess F now p (s, q))"
  using store_safe_grow [of db "{}" s q _ "Pid p"] store_safe_insert [of db s q "Pid p"]
  by (auto simp: logNewProcess_def Let_def split: option.splits)

lemma logEndedProcesses_safe:
  "store_safe db R c \<Longrightarrow> store_safe db R (logEndedProcesses cur now order c)"
proof (induction order arbitrary: c)
  case Nil
  then show ?case by (simp add: logEndedProcesses_Nil)
next
  case (Cons i order)
  obtain s q where c: "c = (s, q)" by (cases c)
  have "store_safe db R (logEndedProcess cur now i c)"
    using Cons.prems unfolding c by (rule logEndedProcess_safe)
  then show ?case using Cons.IH by (simp add: logEndedProcesses_Cons)
qed

lemma logNewProcesses_safe:
  "store_safe db {} c \<Longrightarrow> store_safe db {} (logNewProcesses F now procs c)"
proof (induction procs arbitrary: c)
  case Nil
  then show ?case by (simp add: logNewProcesses_Nil)
next
  case (Cons p procs)
  obtain s q where c: "c = (s, q)" by (cases c)
  have "store_safe db {} (logNewProcess F now p c)"
    using Cons.prems unfolding c by (rule logNewProcess_safe)
  then show ?case using Cons.IH by (simp add: logNewProcesses_Cons)
qed

lemma seedRow_safe:
  assumes "store_safe db (insert i R) (s, q)"
  shows "store_safe db R (seedRow PidExists now (Some (i, name)) (s, q))"
proof (cases "PidExists i")
  case True
  have "store_safe db R (s\<lparr>runningProcs := (runningProcs s)(i \<mapsto> ToLower name),
      runningAppCounts := (runningAppCounts s)(ToLower name \<mapsto> count_of s (ToLower name) + 1)\<rparr>, q)"
    using assms by (auto simp: store_safe_def)
  then show ?thesis using True by (simp add: seedRow_live)
next
  case False
  have d: "distinct (open_pids (exec_all q db))"
    using assms [unfolded store_safe_def, THEN conjunct1, rule_format, of "length q"]
    by (simp add: at_most_one_open_pids)
  have sub: "set (open_pids (exec_all q db)) \<subseteq> dom (runningProcs s) \<union> insert i R"
    using assms by (simp add: store_safe_def)
  have "at_most_one_open (exec_all (q @ [EndWrite now i]) db)"
    using d by (simp add: at_most_one_open_pids exec_all_snoc open_pids_end del: exec_write.simps)
  moreover have "set (open_pids (exec_all (q @ [EndWrite now i]) db)) \<subseteq> dom (runningProcs s) \<union> R"
    using sub by (auto simp: exec_all_snoc open_pids_end simp del: exec_write.simps)
  ultimately have "store_safe db R (s, q @ [EndWrite now i])"
    using assms by (simp add: store_safe_def prefixes_snoc del: take_append)
  then show ?thesis using False by (simp add: seedRow_stale)
qed

lemma seed_fold_safe:
  "store_safe db (set (map fst rs) \<union> R) c \<Longrightarrow>
   store_safe db R (fold (seedRow PidExists now) (map Some rs) c)"
proof (induction rs arbitrary: c)
  case Nil
  then show ?case by simp
next
  case (Cons r rs)
  obtain s q where c: "c = (s, q)" by (cases c)
  obtain i name where r: "r = (i, name)" by (cases r)
  have "store_safe db (insert i (set (map fst rs) \<union> R)) (s, q)"
    using Cons.prems by (simp add: c r)
  then have "store_safe db (set (map fst rs) \<union> R) (seedRow PidExists now (Some (i, name)) (s, q))"
    by (rule seedRow_safe)
  then show ?case using Cons.IH by (simp add: c r)
qed

lemma startup_safe:
  assumes "at_most_one_open db"
  shows "store_safe db {} (state (startup PidExists now (open_query db)),
                           enqueued (startup PidExists now (open_query db)))"
proof -
  have "set (open_pids db) = set (map fst (selected db))"
    by (simp add: open_pids_def selected_def comp_def)
  then have "store_safe db (set (map fst (selected db)) \<union> {}) (empty_state, [])"
    using assms by (simp add: store_safe_def exec_all_def)
  then have "store_safe db {} (fold (seedRow PidExists now) (map Some (selected db)) (empty_state, []))"
    by (rule seed_fold_safe)
  then show ?thesis
    by (simp add: startup_def initializeRunningProcs_def open_query_selected split_beta)
qed

lemma monitor_step_safe:
  assumes "store_safe db {} (state m, enqueued m)"
    and "e = Reset \<longrightarrow> open_rows (exec_all (enqueued m) db) = []"
  shows "store_safe db {} (state (monitor_step F m e), enqueued (monitor_step F m e))"
proof (cases e)
  case (Tick procs order now)
  have "store_safe db {} (logNewProcesses F now procs
          (logEndedProcesses (currentPids procs) now order (state m, enqueued m)))"
    using assms(1) by (intro logNewProcesses_safe logEndedProcesses_safe)
  then show ?thesis using Tick by (simp add: split_beta)
next
  case TickFailed
  then show ?thesis using assms(1) by simp
next
  case Reset
  then show ?thesis using assms by (simp add: store_safe_def open_pids_def)
qed

lemma logEndedProcess_queue:
  "logEndedProcess cur now i (s, q) =
     (fst (logEndedProcess cur now i (s, [])), q @ snd (logEndedProcess cur now i (s, [])))"
  by (simp add: logEndedProcess_def Let_def split: option.splits)

lemma logNewProcess_queue:
  "logNewProcess F now p (s, q) =
     (fst (logNewProcess F now p (s, [])), q @ snd (logNewProcess F now p (s, [])))"
  by (simp add: logNewProcess_def Let_def split: option.splits)

lemma logEndedProcesses_queue:
  "logEndedProcesses cur now order (s, q) =
     (fst (logEndedProcesses cur now order (s, [])),
      q @ snd (logEndedProcesses cur now order (s, [])))"
proof (induction order arbitrary: s q)
  case Nil
  show ?case by (simp add: logEndedProcesses_Nil)
next
  case (Cons i order)
  obtain s1 e1 where c1: "logEndedProcess cur now i (s, []) = (s1, e1)"
    by (cases "logEndedProcess cur now i (s, [])")
  have c2: "logEndedProcess cur now i (s, q) = (s1, q @ e1)"
    using logEndedProcess_queue [of cur now i s q] c1 by simp
  show ?case
    using Cons.IH [of s1 "q @ e1"] Cons.IH [of s1 e1]
    by (simp add: logEndedProcesses_Cons c1 c2)
qed

lemma logNewProcesses_queue:
  "logNewProcesses F now procs (s, q) =
     (fst (logNewProcesses F now procs (s, [])),
      q @ snd (logNewProcesses F now procs (s, [])))"
proof (induction procs arbitrary: s q)
  case Nil
  show ?case by (simp add: logNewProcesses_Nil)
next
  case (Cons p procs)
  obtain s1 e1 where c1: "logNewProcess F now p (s, []) = (s1, e1)"
    by (cases "logNewProcess F now p (s, [])")
  have c2: "logNewProcess F now p (s, q) = (s1, q @ e1)"
    using logNewProcess_queue [of F now p s q] c1 by simp
  show ?case
    using Cons.IH [of s1 "q @ e1"] Cons.IH [of s1 e1]
    by (simp add: logNewProcesses_Cons c1 c2)
qed

lemma monitor_step_queue:
  "state (monitor_step F m e) = state (monitor_step F (m\<lparr>enqueued := []\<rparr>) e)"
  "enqueued (monitor_step F m e) =
     enqueued m @ enqueued (monitor_step F (m\<lparr>enqueued := []\<rparr>) e)"
proof -
  have "state (monitor_step F m e) = state (monitor_step F (m\<lparr>enqueued := []\<rparr>) e) \<and>
        enqueued (monitor_step F m e) =
          enqueued m @ enqueued (monitor_step F (m\<lparr>enqueued := []\<rparr>) e)"
  proof (cases e)
    case (Tick procs order now)
    obtain s1 e1 where c1:
      "logEndedProcesses (currentPids procs) now order (state m, []) = (s1, e1)"
      by (cases "logEndedProcesses (currentPids procs) now order (state m, [])")
    have c2: "logEndedProcesses (currentPids procs) now order (state m, enqueued m) =
              (s1, enqueued m @ e1)"
      using logEndedProcesses_queue [of "currentPids procs" now order "state m" "enqueued m"] c1
      by simp
    show ?thesis
      using logNewProcesses_queue [of F now procs s1 "enqueued m @ e1"]
        logNewProcesses_queue [of F now procs s1 e1]
      by (simp add: Tick c1 c2 split_beta)
  qed simp_all
  then show "state (monitor_step F m e) = state (monitor_step F (m\<lparr>enqueued := []\<rparr>) e)"
    and "enqueued (monitor_step F m e) =
     enqueued m @ enqueued (monitor_step F (m\<lparr>enqueued := []\<rparr>) e)"
    by simp_all
qed

lemma run_ops_append: "run_ops (xs @ ys) db = run_ops ys (run_ops xs db)"
  by (simp add: run_ops_def)

lemma run_ops_Executed: "run_ops (map Executed ws) db = exec_all ws db"
  by (induction ws arbitrary: db) (simp_all add: run_ops_def exec_all_def)

lemma run_ops_Purge: "run_ops (Purge # ys) db = run_ops ys []"
  by (simp add: run_ops_def)

lemma prefixes_append:
  "(\<forall>k. P (take k (xs @ ys))) = ((\<forall>k. P (take k xs)) \<and> (\<forall>j. P (xs @ take j ys)))"
proof
  assume a: "\<forall>k. P (take k (xs @ ys))"
  have "\<forall>k. P (take k xs)"
  proof
    fix k
    have "take (min k (length xs)) (xs @ ys) = take k xs" by (simp add: min_def)
    then show "P (take k xs)" using a by metis
  qed
  moreover have "\<forall>j. P (xs @ take j ys)"
  proof
    fix j
    have "take (length xs + j) (xs @ ys) = xs @ take j ys" by simp
    then show "P (xs @ take j ys)" using a by metis
  qed
  ultimately show "(\<forall>k. P (take k xs)) \<and> (\<forall>j. P (xs @ take j ys))" by blast
next
  assume a: "(\<forall>k. P (take k xs)) \<and> (\<forall>j. P (xs @ take j ys))"
  show "\<forall>k. P (take k (xs @ ys))"
  proof
    fix k
    show "P (take k (xs @ ys))"
    proof (cases "k \<le> length xs")
      case True
      then show ?thesis using a by simp
    next
      case False
      then have "take k (xs @ ys) = xs @ take (k - length xs) ys" by simp
      then show ?thesis using a by simp
    qed
  qed
qed

lemma apply_op_subseq: "subseq S' S \<Longrightarrow> subseq (apply_op x S') (apply_op x S)"
proof (cases x)
  case (Executed w)
  assume s: "subseq S' S"
  show ?thesis
  proof (cases w)
    case (EndWrite t i)
    then show ?thesis using s Executed by (simp add: subseq_map)
  next
    case (InsertWrite name i parent exe t)
    then show ?thesis using s Executed by simp
  qed
next
  case Purge
  then show ?thesis by simp
qed

lemma run_ops_subseq: "subseq S' S \<Longrightarrow> subseq (run_ops zs S') (run_ops zs S)"
proof (induction zs arbitrary: S' S)
  case Nil
  then show ?case by (simp add: run_ops_def)
next
  case (Cons x zs)
  have "subseq (apply_op x S') (apply_op x S)" using Cons.prems by (rule apply_op_subseq)
  then have "subseq (run_ops zs (apply_op x S')) (run_ops zs (apply_op x S))"
    by (rule Cons.IH)
  then show ?case by (simp add: run_ops_def)
qed

lemma open_pids_subseq: "subseq S' S \<Longrightarrow> subseq (open_pids S') (open_pids S)"
  by (simp add: open_pids_def open_rows_def subseq_map)

lemma subseq_distinct: "subseq xs ys \<Longrightarrow> distinct ys \<Longrightarrow> distinct xs"
  using subseqs_distinctD [of xs ys] by simp

lemma subseq_subset: "subseq xs ys \<Longrightarrow> set xs \<subseteq> set ys"
  by (auto dest: list_emb_set)

lemma history_safe_loop:
  assumes h: "history_safe db h"
    and g: "e = Reset \<longrightarrow> open_rows (run_ops (ops h) db) = []"
  shows "history_safe db (history_step F h (Loop e))"
proof -
  let ?D = "run_ops (ops h) db"
  let ?m0 = "(mon h)\<lparr>enqueued := []\<rparr>"
  let ?ws = "enqueued (monitor_step F ?m0 e)"
  have pre: "\<forall>k. at_most_one_open (run_ops (take k (ops h)) db)"
    and sub: "set (open_pids ?D) \<subseteq> dom (runningProcs (state (mon h)))"
    using h by (simp_all add: history_safe_def)
  have amo: "at_most_one_open ?D" using pre [rule_format, of "length (ops h)"] by simp
  have "store_safe ?D {} (state ?m0, enqueued ?m0)"
    using amo sub by (simp add: store_safe_def exec_all_def)
  moreover have "e = Reset \<longrightarrow> open_rows (exec_all (enqueued ?m0) ?D) = []"
    using g by (simp add: exec_all_def)
  ultimately have s: "store_safe ?D {} (state (monitor_step F ?m0 e), ?ws)"
    by (rule monitor_step_safe)
  have st: "state (monitor_step F (mon h) e) = state (monitor_step F ?m0 e)"
    and en: "enqueued (monitor_step F (mon h) e) = enqueued (mon h) @ ?ws"
    by (rule monitor_step_queue)+
  have o: "ops (history_step F h (Loop e)) = ops h @ map Executed ?ws"
    by (simp add: en)
  have p1: "\<forall>j. at_most_one_open (run_ops (ops h @ take j (map Executed ?ws)) db)"
  proof
    fix j
    have "at_most_one_open (exec_all (take j ?ws) ?D)"
      using s by (simp add: store_safe_def)
    then show "at_most_one_open (run_ops (ops h @ take j (map Executed ?ws)) db)"
      by (simp add: run_ops_append take_map run_ops_Executed)
  qed
  have "\<forall>k. at_most_one_open (run_ops (take k (ops h @ map Executed ?ws)) db)"
    using pre p1
      prefixes_append [of "\<lambda>zs. at_most_one_open (run_ops zs db)" "ops h" "map Executed ?ws"]
    by blast
  moreover have "set (open_pids (run_ops (ops h @ map Executed ?ws) db))
                   \<subseteq> dom (runningProcs (state (monitor_step F (mon h) e)))"
    using s by (simp add: store_safe_def run_ops_append run_ops_Executed st)
  ultimately show ?thesis
    unfolding history_safe_def o by simp
qed

lemma history_safe_purge:
  assumes h: "history_safe db h"
  shows "history_safe db (history_step F h (Purged a))"
proof -
  let ?xs = "take a (ops h)" and ?ys = "drop a (ops h)"
  have split: "ops h = ?xs @ ?ys" by simp
  have pre: "\<forall>k. at_most_one_open (run_ops (take k (?xs @ ?ys)) db)"
    and sub: "set (open_pids (run_ops (?xs @ ?ys) db)) \<subseteq> dom (runningProcs (state (mon h)))"
    using h by (simp_all add: history_safe_def)
  have old: "(\<forall>k. at_most_one_open (run_ops (take k ?xs) db)) \<and>
             (\<forall>j. at_most_one_open (run_ops (?xs @ take j ?ys) db))"
    using pre prefixes_append [of "\<lambda>zs. at_most_one_open (run_ops zs db)" ?xs ?ys]
    by blast
  have rel: "\<And>zs. subseq (run_ops zs []) (run_ops zs (run_ops ?xs db))"
    by (rule run_ops_subseq) simp
  have p1: "\<forall>j. at_most_one_open (run_ops (?xs @ take j (Purge # ?ys)) db)"
  proof
    fix j
    show "at_most_one_open (run_ops (?xs @ take j (Purge # ?ys)) db)"
    proof (cases j)
      case 0
      then show ?thesis using old [THEN conjunct2, rule_format, of 0] by simp
    next
      case (Suc i)
      have "distinct (open_pids (run_ops (take i ?ys) (run_ops ?xs db)))"
        using old [THEN conjunct2, rule_format, of i]
        by (simp add: run_ops_append at_most_one_open_pids)
      then have "distinct (open_pids (run_ops (take i ?ys) []))"
        using open_pids_subseq [OF rel [of "take i ?ys"]] by (rule subseq_distinct [rotated])
      then show ?thesis
        by (simp add: Suc run_ops_append run_ops_Purge at_most_one_open_pids)
    qed
  qed
  have "\<forall>k. at_most_one_open (run_ops (take k (?xs @ Purge # ?ys)) db)"
    using old p1
      prefixes_append [of "\<lambda>zs. at_most_one_open (run_ops zs db)" ?xs "Purge # ?ys"]
    by blast
  moreover have "set (open_pids (run_ops (?xs @ Purge # ?ys) db))
                   \<subseteq> dom (runningProcs (state (mon h)))"
  proof -
    have "set (open_pids (run_ops ?ys [])) \<subseteq> set (open_pids (run_ops ?ys (run_ops ?xs db)))"
      using open_pids_subseq [OF rel [of ?ys]] by (rule subseq_subset)
    moreover have "run_ops ?ys (run_ops ?xs db) = run_ops (ops h) db"
      using run_ops_append [of ?xs ?ys db] by simp
    ultimately have "set (open_pids (run_ops ?ys [])) \<subseteq> dom (runningProcs (state (mon h)))"
      using h by (auto simp: history_safe_def)
    then show ?thesis by (simp add: run_ops_append run_ops_Purge)
  qed
  ultimately show ?thesis
    by (simp add: history_safe_def)
qed

lemma history_start_safe:
  assumes "at_most_one_open db"
  shows "history_safe db (history_start PidExists now db)"
  using startup_safe [OF assms, of PidExists now]
  by (simp add: history_safe_def history_start_def store_safe_def run_ops_Executed
      take_map)

lemma history_run_safe:
  assumes "history_safe db h" and "resets_on_closed_store F db h xs"
  shows "history_safe db (foldl (history_step F) h xs)"
  using assms
proof (induction xs arbitrary: h)
  case Nil
  then show ?case by simp
next
  case (Cons x xs)
  have "history_safe db (history_step F h x)"
  proof (cases x)
    case (Loop e)
    have "e = Reset \<longrightarrow> open_rows (run_ops (ops h) db) = []"
      using Cons.prems(2) Loop by simp
    then have "history_safe db (history_step F h (Loop e))"
      using Cons.prems(1) by (intro history_safe_loop)
    then show ?thesis by (simp only: Loop)
  next
    case (Purged a)
    then show ?thesis using Cons.prems(1) by (simp only: history_safe_purge)
  qed
  then show ?case using Cons.IH [of "history_step F h x"] Cons.prems(2) by simp
qed

lemma history_mon:
  "mon (foldl (history_step F) h xs) = foldl (monitor_step F) (mon h) (loop_events xs)"
proof (induction xs arbitrary: h)
  case Nil
  show ?case by simp
next
  case (Cons x xs)
  show ?case using Cons.IH [of "history_step F h x"] by (cases x) simp_all
qed

lemma history_logger:
  "mon (foldl (history_step F) (history_start PidExists now db) xs) =
     StartProcessEventLogger F PidExists now (open_query db) (loop_events xs)"
  by (simp add: history_mon StartProcessEventLogger_def history_start_def)

text \<open>
  C2, as the code has it. Let the store at startup hold at most one open row for each
  identifier, let the startup query read its open rows, and let the requests be
  executed in the order of the queue and without failure, with purges of the store
  at any points between them. Let every reset signal be received when the store, with
  the requests enqueued so far executed and the purges so far applied, holds no open
  row. Then after every prefix of the operations on the store, that is at every
  instant, the store holds at most one open row for each identifier.
\<close>

theorem one_open_row_per_pid:
  assumes "at_most_one_open db"
    and "resets_on_closed_store F db (history_start PidExists now db) xs"
  shows "at_most_one_open
           (run_ops (take k (ops (foldl (history_step F) (history_start PidExists now db) xs)))
              db)"
proof -
  have "history_safe db (foldl (history_step F) (history_start PidExists now db) xs)"
    using history_start_safe [OF assms(1)] assms(2) by (rule history_run_safe)
  then show ?thesis by (simp add: history_safe_def)
qed

theorem one_open_row_per_pid_witness:
  "at_most_one_open [] \<and>
   resets_on_closed_store windows_rules [] (history_start (\<lambda>i. True) 0 [])
     [Loop (Tick [editor 1] [] 5), Purged 1, Loop Reset, Loop (Tick [editor 1] [] 6)] \<and>
   ops (foldl (history_step windows_rules) (history_start (\<lambda>i. True) 0 [])
     [Loop (Tick [editor 1] [] 5), Purged 1, Loop Reset, Loop (Tick [editor 1] [] 6)]) =
     [Executed (insert_of 5 (editor 1)), Purge, Executed (insert_of 6 (editor 1))] \<and>
   open_pids (run_ops (ops (foldl (history_step windows_rules) (history_start (\<lambda>i. True) 0 [])
     [Loop (Tick [editor 1] [] 5), Purged 1, Loop Reset, Loop (Tick [editor 1] [] 6)])) []) = [1] \<and>
   at_most_one_open
     (run_ops (take 3 (ops (foldl (history_step windows_rules) (history_start (\<lambda>i. True) 0 [])
        [Loop (Tick [editor 1] [] 5), Purged 1, Loop Reset, Loop (Tick [editor 1] [] 6)]))) [])"
proof -
  have a: "at_most_one_open []"
    by (simp add: at_most_one_open_def open_rows_def)
  have st: "history_start (\<lambda>i. True) 0 [] =
      \<lparr>mon = \<lparr>state = empty_state, enqueued = [], appLog = []\<rparr>, ops = []\<rparr>"
    by (simp add: history_start_def run_defs open_query_def open_rows_def)
  have g: "resets_on_closed_store windows_rules [] (history_start (\<lambda>i. True) 0 [])
     [Loop (Tick [editor 1] [] 5), Purged 1, Loop Reset, Loop (Tick [editor 1] [] 6)]"
    unfolding st
    by (simp add: run_defs sample_evals run_ops_def open_rows_def)
  have e: "ops (foldl (history_step windows_rules) (history_start (\<lambda>i. True) 0 [])
     [Loop (Tick [editor 1] [] 5), Purged 1, Loop Reset, Loop (Tick [editor 1] [] 6)]) =
     [Executed (insert_of 5 (editor 1)), Purge, Executed (insert_of 6 (editor 1))]"
    unfolding st
    by (simp add: run_defs sample_evals)
  have o: "open_pids (run_ops [Executed (insert_of 5 (editor 1)), Purge,
             Executed (insert_of 6 (editor 1))] []) = [1]"
    by (simp add: run_ops_def open_pids_def open_rows_def insert_of_def editor_fields)
  have o': "open_pids (run_ops (ops (foldl (history_step windows_rules)
     (history_start (\<lambda>i. True) 0 [])
     [Loop (Tick [editor 1] [] 5), Purged 1, Loop Reset, Loop (Tick [editor 1] [] 6)])) []) = [1]"
    unfolding e by (rule o)
  note t = one_open_row_per_pid [OF a g, of 3]
  show ?thesis
    using a g e o' t by (intro conjI)
qed

text \<open>
  C2 without the condition on the reset fails. The editor, identifier 1, is
  inserted at the first tick and keeps running; a reset is received while its row is
  open; the ledger is now empty, so the next tick enqueues no end-write and inserts
  the editor again: the store holds two open rows for identifier 1.
\<close>

theorem reopened_after_reset_counterexample:
  "at_most_one_open [] \<and>
   range_order (state (StartProcessEventLogger windows_rules (\<lambda>i. True) 0 (open_query [])
      [Tick [editor 1] [] 5, Reset])) [] \<and>
   open_pids (exec_all (enqueued (StartProcessEventLogger windows_rules (\<lambda>i. True) 0
      (open_query []) [Tick [editor 1] [] 5])) []) = [1] \<and>
   open_pids (exec_all (enqueued (StartProcessEventLogger windows_rules (\<lambda>i. True) 0
      (open_query []) [Tick [editor 1] [] 5, Reset, Tick [editor 1] [] 6])) []) = [1, 1] \<and>
   \<not> at_most_one_open (exec_all (enqueued (StartProcessEventLogger windows_rules (\<lambda>i. True) 0
      (open_query []) [Tick [editor 1] [] 5, Reset, Tick [editor 1] [] 6])) [])"
  by (simp add: run_defs sample_evals range_order_def open_query_def open_rows_def
      at_most_one_open_def open_pids_def exec_all_def insert_of_def)

section \<open>The reference-counting logger and the boolean-map logger\<close>

lemma logEndedProcesses_bool_empty:
  "runningProcs_bool (state_bool m) = Map.empty \<Longrightarrow>
   logEndedProcesses_bool cur now order m = m"
  by (induction order) (simp_all add: logEndedProcesses_bool_def logEndedProcess_bool_def)

lemma logNewProcesses_bool_Nil: "logNewProcesses_bool F now [] m = m"
  by (simp add: logNewProcesses_bool_def)

lemma logNewProcesses_bool_Cons:
  "logNewProcesses_bool F now (p # procs) m =
     logNewProcesses_bool F now procs (logNewProcess_bool F now p m)"
  by (simp add: logNewProcesses_bool_def)

lemma new_pass_both:
  assumes rel: "same_logged s (state_bool m)"
    and q: "enqueued_bool m = q"
    and f1: "runningProcs s (Pid p) = None"
    and f2: "\<not> is_set (runningProcs_bool (state_bool m)) (Pid p)"
  shows "same_logged (fst (logNewProcess F now p (s, q))) (state_bool (logNewProcess_bool F now p m))"
    and "enqueued_bool (logNewProcess_bool F now p m) = snd (logNewProcess F now p (s, q))"
    and "\<And>j. j \<noteq> Pid p \<Longrightarrow> runningProcs s j = None \<Longrightarrow>
           runningProcs (fst (logNewProcess F now p (s, q))) j = None"
    and "\<And>j. j \<noteq> Pid p \<Longrightarrow> \<not> is_set (runningProcs_bool (state_bool m)) j \<Longrightarrow>
           \<not> is_set (runningProcs_bool (state_bool (logNewProcess_bool F now p m))) j"
proof -
  have r: "\<And>n. 0 \<le> count_of s n \<and> (0 < count_of s n) = is_set (loggedApps (state_bool m)) n"
    using rel by (simp add: same_logged_def)
  show "same_logged (fst (logNewProcess F now p (s, q))) (state_bool (logNewProcess_bool F now p m))"
    unfolding same_logged_def
    using r f1 f2
    by (auto simp: logNewProcess_def logNewProcess_bool_def shouldLogProcess_def Let_def
        count_of_def is_set_def split: option.splits)
  show "enqueued_bool (logNewProcess_bool F now p m) = snd (logNewProcess F now p (s, q))"
    using r f1 f2 q
    by (auto simp: logNewProcess_def logNewProcess_bool_def shouldLogProcess_def Let_def
        name_of_def exe_of_def split: option.splits)
  show "\<And>j. j \<noteq> Pid p \<Longrightarrow> runningProcs s j = None \<Longrightarrow>
           runningProcs (fst (logNewProcess F now p (s, q))) j = None"
    by (auto simp: logNewProcess_def Let_def split: option.splits)
  show "\<And>j. j \<noteq> Pid p \<Longrightarrow> \<not> is_set (runningProcs_bool (state_bool m)) j \<Longrightarrow>
           \<not> is_set (runningProcs_bool (state_bool (logNewProcess_bool F now p m))) j"
    by (auto simp: logNewProcess_bool_def shouldLogProcess_def Let_def is_set_def
        split: option.splits)
qed

lemma new_passes_both:
  assumes "same_logged s (state_bool m)"
    and "enqueued_bool m = q"
    and "distinct (map Pid procs)"
    and "\<forall>p\<in>set procs. runningProcs s (Pid p) = None"
    and "\<forall>p\<in>set procs. \<not> is_set (runningProcs_bool (state_bool m)) (Pid p)"
  shows "enqueued_bool (logNewProcesses_bool F now procs m) =
         snd (logNewProcesses F now procs (s, q))"
  using assms
proof (induction procs arbitrary: s q m)
  case Nil
  then show ?case by (simp add: logNewProcesses_Nil logNewProcesses_bool_Nil)
next
  case (Cons p procs)
  obtain s1 q1 where c1: "logNewProcess F now p (s, q) = (s1, q1)"
    by (cases "logNewProcess F now p (s, q)")
  let ?m1 = "logNewProcess_bool F now p m"
  have f1: "runningProcs s (Pid p) = None"
    and f2: "\<not> is_set (runningProcs_bool (state_bool m)) (Pid p)"
    using Cons.prems(4,5) by simp_all
  note np = new_pass_both [OF Cons.prems(1,2) f1 f2, where F = F and now = now]
  have r1: "same_logged s1 (state_bool ?m1)" using np(1) c1 by simp
  have q1: "enqueued_bool ?m1 = q1" using np(2) c1 by simp
  have d1: "distinct (map Pid procs)" using Cons.prems(3) by simp
  have a1: "\<forall>p'\<in>set procs. runningProcs s1 (Pid p') = None"
  proof
    fix p' assume p': "p' \<in> set procs"
    then have "Pid p' \<noteq> Pid p" using Cons.prems(3) by (auto simp: image_iff)
    moreover have "runningProcs s (Pid p') = None" using Cons.prems(4) p' by simp
    ultimately show "runningProcs s1 (Pid p') = None" using np(3) [of "Pid p'"] c1 by simp
  qed
  have a2: "\<forall>p'\<in>set procs. \<not> is_set (runningProcs_bool (state_bool ?m1)) (Pid p')"
  proof
    fix p' assume p': "p' \<in> set procs"
    then have "Pid p' \<noteq> Pid p" using Cons.prems(3) by (auto simp: image_iff)
    moreover have "\<not> is_set (runningProcs_bool (state_bool m)) (Pid p')"
      using Cons.prems(5) p' by simp
    ultimately show "\<not> is_set (runningProcs_bool (state_bool ?m1)) (Pid p')"
      using np(4) [of "Pid p'"] by simp
  qed
  show ?case
    using Cons.IH [OF r1 q1 d1 a1 a2] c1
    by (simp add: logNewProcesses_Cons logNewProcesses_bool_Cons)
qed

lemma logNew_bool_editor:
  "logNewProcess_bool windows_rules now (editor i) m =
    (if is_set (runningProcs_bool (state_bool m)) i \<or>
        is_set (loggedApps (state_bool m)) ''editor.exe'' then m
     else m\<lparr>state_bool :=
              \<lparr>runningProcs_bool = (runningProcs_bool (state_bool m))(i \<mapsto> True),
               loggedApps = (loggedApps (state_bool m))(''editor.exe'' \<mapsto> True)\<rparr>,
            enqueued_bool := enqueued_bool m @ [insert_of now (editor i)]\<rparr>)"
  using editor_not_excluded [of i] editor_tracked [of i]
  by (simp add: logNewProcess_bool_def shouldLogProcess_def ToLower_Editor Let_def
      insert_of_def name_of_def exe_of_def editor_fields del: append.simps)

lemmas run_bool_defs =
  StartProcessEventLogger_bool_def initializeRunningProcs_bool_def seedRow_bool_def
  logEndedProcesses_bool_def logEndedProcess_bool_def logNewProcesses_bool_def
  logNew_bool_editor is_set_def empty_bool_def

text \<open>
  C10, as the code has it. The two loggers enqueue the same requests in a tick that
  starts from empty in-memory maps and equal queues, as at startup with no open row to
  seed and right after a reset, for a process list that has no identifier twice.
\<close>

theorem variants_agree_from_empty:
  assumes "distinct (map Pid procs)"
    and "state m = empty_state" and "state_bool mb = empty_bool"
    and "enqueued_bool mb = enqueued m"
  shows "enqueued_bool (monitor_step_bool F mb (Tick procs order' now)) =
         enqueued (monitor_step F m (Tick procs order now))"
proof -
  have e1: "logEndedProcesses (currentPids procs) now order (state m, enqueued m) =
            (empty_state, enqueued m)"
    unfolding assms(2) by (rule logEndedProcesses_empty) (simp add: empty_state_def)
  have e2: "logEndedProcesses_bool (currentPids procs) now order' mb = mb"
    by (rule logEndedProcesses_bool_empty) (simp add: assms(3) empty_bool_def)
  have "enqueued_bool (logNewProcesses_bool F now procs mb) =
        snd (logNewProcesses F now procs (empty_state, enqueued m))"
    using assms(1,4)
    by (intro new_passes_both)
       (simp_all add: assms(3) same_logged_def empty_state_def empty_bool_def count_of_def
          is_set_def)
  then show ?thesis by (simp add: e1 e2 split_beta)
qed

theorem variants_agree_from_empty_witness:
  "distinct (map Pid [editor 1, editor 2, svchost 4]) \<and>
   state (startup (\<lambda>i. True) 0 (Some [])) = empty_state \<and>
   enqueued_bool (monitor_step_bool windows_rules
      \<lparr>state_bool = empty_bool, enqueued_bool = [], appLog_bool = []\<rparr>
      (Tick [editor 1, editor 2, svchost 4] [] 5)) =
   enqueued (monitor_step windows_rules (startup (\<lambda>i. True) 0 (Some []))
      (Tick [editor 1, editor 2, svchost 4] [] 5)) \<and>
   enqueued (monitor_step windows_rules (startup (\<lambda>i. True) 0 (Some []))
      (Tick [editor 1, editor 2, svchost 4] [] 5)) = [insert_of 5 (editor 1)]"
proof -
  have d: "distinct (map Pid [editor 1, editor 2, svchost 4])"
    by (simp add: editor_fields svchost_fields)
  have s: "state (startup (\<lambda>i. True) 0 (Some [])) = empty_state"
    and q: "enqueued_bool \<lparr>state_bool = empty_bool, enqueued_bool = [], appLog_bool = []\<rparr> =
            enqueued (startup (\<lambda>i. True) 0 (Some []))"
    by (simp_all add: startup_def initializeRunningProcs_def)
  have e: "enqueued (monitor_step windows_rules (startup (\<lambda>i. True) 0 (Some []))
      (Tick [editor 1, editor 2, svchost 4] [] 5)) = [insert_of 5 (editor 1)]"
    by (simp add: run_defs sample_evals)
  show ?thesis
    using variants_agree_from_empty [OF d s _ q, of windows_rules "[]" 5 "[]"] d s e
    by simp
qed


text \<open>
  C10 as stated fails: over longer runs the two loggers differ. The editor runs as process 1, ends, and is
  started again as process 2: the reference-counting logger inserts it both times;
  the boolean-map logger, whose \<open>loggedApps\<close> is cleared by a reset only, enqueues no
  insert for the second start.
\<close>

theorem variants_differ_counterexample:
  "enqueued (StartProcessEventLogger windows_rules (\<lambda>i. True) 0 (Some [])
      [Tick [editor 1] [] 5, Tick [] [1] 6, Tick [editor 2] [] 7]) =
     [insert_of 5 (editor 1), EndWrite 6 1, insert_of 7 (editor 2)] \<and>
   enqueued_bool (StartProcessEventLogger_bool windows_rules (\<lambda>i. True) 0 (Some [])
      [Tick [editor 1] [] 5, Tick [] [1] 6, Tick [editor 2] [] 7]) =
     [insert_of 5 (editor 1), EndWrite 6 1] \<and>
   enqueued_bool (StartProcessEventLogger_bool windows_rules (\<lambda>i. True) 0 (Some [])
      [Tick [editor 1] [] 5, Tick [] [1] 6, Tick [editor 2] [] 7]) \<noteq>
   enqueued (StartProcessEventLogger windows_rules (\<lambda>i. True) 0 (Some [])
      [Tick [editor 1] [] 5, Tick [] [1] 6, Tick [editor 2] [] 7])"
  by (simp add: run_defs run_bool_defs sample_evals)

end
